theory Spec2Isabelle
  imports Main
begin

section \<open>Bytes and the Go library functions the code calls\<close>

text \<open>
  A Go \<open>string\<close> and a \<open>[]byte\<close> are sequences of bytes: here \<open>string\<close>, a list of
  8-bit \<open>char\<close>s. The functions of this section are Go's standard library
  (\<open>strings\<close>, \<open>unicode\<close>), not code of the repository; each is written out so that the
  model stays executable.
\<close>

abbreviation NL :: char where "NL \<equiv> CHR 0x0A"
abbreviation CR :: char where "CR \<equiv> CHR 0x0D"
abbreviation TAB :: char where "TAB \<equiv> CHR 0x09"
abbreviation SP :: char where "SP \<equiv> CHR 0x20"
abbreviation NUL :: char where "NUL \<equiv> CHR 0x00"

definition byteVal :: "char \<Rightarrow> nat" where
  "byteVal c = of_char c"

text \<open>\<open>strings.TrimRight(s, cutset)\<close> for a cutset of ASCII bytes.\<close>

definition TrimRight :: "string \<Rightarrow> string \<Rightarrow> string" where
  "TrimRight s cutset = rev (dropWhile (\<lambda>c. c \<in> set cutset) (rev s))"

text \<open>
  \<open>unicode.IsSpace\<close> on code points, as the UTF-8 byte sequences that encode them:
  the six ASCII spaces, U+0085, U+00A0, U+1680, U+2000 to U+200A, U+2028, U+2029,
  U+202F, U+205F and U+3000.
\<close>

definition unicodeSpaces :: "string list" where
  "unicodeSpaces =
    [[CHR 0x09], [CHR 0x0A], [CHR 0x0B], [CHR 0x0C], [CHR 0x0D], [CHR 0x20],
     [CHR 0xC2, CHR 0x85], [CHR 0xC2, CHR 0xA0], [CHR 0xE1, CHR 0x9A, CHR 0x80],
     [CHR 0xE2, CHR 0x80, CHR 0x80], [CHR 0xE2, CHR 0x80, CHR 0x81],
     [CHR 0xE2, CHR 0x80, CHR 0x82], [CHR 0xE2, CHR 0x80, CHR 0x83],
     [CHR 0xE2, CHR 0x80, CHR 0x84], [CHR 0xE2, CHR 0x80, CHR 0x85],
     [CHR 0xE2, CHR 0x80, CHR 0x86], [CHR 0xE2, CHR 0x80, CHR 0x87],
     [CHR 0xE2, CHR 0x80, CHR 0x88], [CHR 0xE2, CHR 0x80, CHR 0x89],
     [CHR 0xE2, CHR 0x80, CHR 0x8A], [CHR 0xE2, CHR 0x80, CHR 0xA8],
     [CHR 0xE2, CHR 0x80, CHR 0xA9], [CHR 0xE2, CHR 0x80, CHR 0xAF],
     [CHR 0xE2, CHR 0x81, CHR 0x9F], [CHR 0xE3, CHR 0x80, CHR 0x80]]"

definition leadingSeq :: "string list \<Rightarrow> string \<Rightarrow> nat" where
  "leadingSeq seqs s =
     (case filter (\<lambda>p. p \<noteq> [] \<and> take (length p) s = p) seqs of
        [] \<Rightarrow> 0 | p # _ \<Rightarrow> length p)"

lemma leadingSeq_le: "leadingSeq seqs s \<le> length s"
proof (cases "filter (\<lambda>p. p \<noteq> [] \<and> take (length p) s = p) seqs")
  case Nil
  then show ?thesis by (simp add: leadingSeq_def)
next
  case (Cons p ps)
  then have "p \<in> set (filter (\<lambda>p. p \<noteq> [] \<and> take (length p) s = p) seqs)" by simp
  then have "take (length p) s = p" by simp
  then have "length p \<le> length s"
    by (metis length_take min.cobounded1)
  with Cons show ?thesis by (simp add: leadingSeq_def)
qed

function trimLeftSeqs :: "string list \<Rightarrow> string \<Rightarrow> string" where
  "trimLeftSeqs seqs s =
     (if leadingSeq seqs s = 0 then s else trimLeftSeqs seqs (drop (leadingSeq seqs s) s))"
  by pat_completeness auto
termination
proof (relation "measure (\<lambda>(seqs, s). length s)")
  show "wf (measure (\<lambda>(seqs, s). length s))" by simp
next
  fix seqs :: "string list" and s :: string
  assume "leadingSeq seqs s \<noteq> 0"
  moreover have "leadingSeq seqs s \<le> length s" by (rule leadingSeq_le)
  ultimately show "((seqs, drop (leadingSeq seqs s) s), (seqs, s)) \<in> measure (\<lambda>(seqs, s). length s)"
    by simp
qed

declare trimLeftSeqs.simps [simp del]

text \<open>\<open>strings.TrimSpace\<close>: leading and trailing white space removed.\<close>

definition TrimSpace :: "string \<Rightarrow> string" where
  "TrimSpace s = rev (trimLeftSeqs (map rev unicodeSpaces) (rev (trimLeftSeqs unicodeSpaces s)))"

text \<open>
  \<open>strings.ToLower\<close> on the ASCII letters. The scanner only compares the result with
  ASCII words none of whose letters is the lower case of a letter outside ASCII, so
  the comparison's outcome is that of Go's.
\<close>

definition asciiLower :: "char \<Rightarrow> char" where
  "asciiLower c = (if 65 \<le> byteVal c \<and> byteVal c \<le> 90 then char_of (byteVal c + 32) else c)"

definition ToLower :: "string \<Rightarrow> string" where
  "ToLower s = map asciiLower s"

text \<open>
  \<open>unicode.IsDigit\<close>, \<open>unicode.IsLetter\<close> and \<open>unicode.IsSpace\<close> applied to \<open>rune(b)\<close>
  for a byte \<open>b\<close>, that is on the Latin-1 code points.
\<close>

definition isDigitByte :: "char \<Rightarrow> bool" where
  "isDigitByte c = (48 \<le> byteVal c \<and> byteVal c \<le> 57)"

definition isLetterByte :: "char \<Rightarrow> bool" where
  "isLetterByte c =
     (let n = byteVal c in
        (65 \<le> n \<and> n \<le> 90) \<or> (97 \<le> n \<and> n \<le> 122) \<or> n = 170 \<or> n = 181 \<or> n = 186
        \<or> (192 \<le> n \<and> n \<le> 214) \<or> (216 \<le> n \<and> n \<le> 246) \<or> (248 \<le> n \<and> n \<le> 255))"

definition isSpaceByte :: "char \<Rightarrow> bool" where
  "isSpaceByte c =
     (let n = byteVal c in (9 \<le> n \<and> n \<le> 13) \<or> n = 32 \<or> n = 133 \<or> n = 160)"

text \<open>\<open>strings.HasPrefix\<close>, \<open>strings.HasSuffix\<close>, \<open>strings.Contains\<close>.\<close>

definition HasPrefix :: "string \<Rightarrow> string \<Rightarrow> bool" where
  "HasPrefix s p = (take (length p) s = p)"

definition HasSuffix :: "string \<Rightarrow> string \<Rightarrow> bool" where
  "HasSuffix s p = (length p \<le> length s \<and> drop (length s - length p) s = p)"

fun Contains :: "string \<Rightarrow> string \<Rightarrow> bool" where
  "Contains [] p = (p = [])"
| "Contains (c # s) p = (HasPrefix (c # s) p \<or> Contains s p)"

section \<open>Tokens (lexer/token.go)\<close>

datatype TokenType =
    TokenEOF | TokenNewLine | TokenIndent | TokenDedent | TokenDocumentStart
  | TokenDocumentEnd | TokenKey | TokenValue | TokenString | TokenNumber | TokenBoolean
  | TokenNull | TokenSequenceStart | TokenSequenceItem | TokenMappingStart | TokenAnchor
  | TokenAlias | TokenTag | TokenComment | TokenLiteralBlock | TokenFoldedBlock
  | TokenFlowSequenceStart | TokenFlowSequenceEnd | TokenFlowMappingStart
  | TokenFlowMappingEnd | TokenFlowEntry | TokenError

datatype Token = Token (Type: TokenType) (Value: string) (Line: int) (Column: int) (Offset: int)

section \<open>The scanner (lexer/scanner.go)\<close>

text \<open>
  The scanner reads its input one byte at a time: \<open>fillBuffer\<close> moves the next byte
  of the reader to the end of \<open>buffer\<close>, and \<open>peek\<close>, \<open>peekAhead\<close>, \<open>isEOF\<close> and
  \<open>isEOFAt\<close> call it when they look past the buffer's end. \<open>countIndent\<close> reads the
  buffer alone, so how far the buffer has been filled is part of the state. The
  reader is the list of the bytes it has not handed out yet; a read error ends the
  input, as the source treats it.
\<close>

record Scanner =
  reader :: string
  buffer :: string
  position :: nat
  line :: int
  column :: int
  offset :: int
  indentStack :: "int list"
  inFlow :: int
  tokens :: "Token list"
  tokenIndex :: nat

definition NewScanner :: "string \<Rightarrow> Scanner" where
  "NewScanner r = \<lparr>reader = r, buffer = [], position = 0, line = 1, column = 1, offset = 0,
     indentStack = [0], inFlow = 0, tokens = [], tokenIndex = 0\<rparr>"

text \<open>
  Go's \<open>int\<close> is 64 bits wide and \<open>s.inFlow++\<close> wraps around; \<open>wrap64\<close> is that
  wrap-around on the mathematical integers. The other counters count bytes and lines
  of the input and are kept unbounded.
\<close>

definition wrap64 :: "int \<Rightarrow> int" where
  "wrap64 x = (x + 2 ^ 63) mod 2 ^ 64 - 2 ^ 63"

definition fillBuffer :: "Scanner \<Rightarrow> bool \<times> Scanner" where
  "fillBuffer s =
     (case reader s of
        [] \<Rightarrow> (False, s)
      | b # r \<Rightarrow> (True, s\<lparr>reader := r, buffer := buffer s @ [b]\<rparr>))"

definition peek :: "Scanner \<Rightarrow> char \<times> Scanner" where
  "peek s =
     (let s1 = (if length (buffer s) \<le> position s then snd (fillBuffer s) else s)
      in (if position s1 < length (buffer s1) then buffer s1 ! position s1 else NUL, s1))"

text \<open>The loop \<open>for s.position+offset >= len(s.buffer) { if !s.fillBuffer() { ... } }\<close>.\<close>

function fillTo :: "nat \<Rightarrow> Scanner \<Rightarrow> Scanner" where
  "fillTo n s =
     (if length (buffer s) \<le> n
      then (case fillBuffer s of (True, s1) \<Rightarrow> fillTo n s1 | (False, s1) \<Rightarrow> s1)
      else s)"
  by pat_completeness auto
termination
  by (relation "measure (\<lambda>(n, s). length (reader s))")
     (auto simp: fillBuffer_def split: list.splits)

declare fillTo.simps [simp del]

definition peekAhead :: "nat \<Rightarrow> Scanner \<Rightarrow> char \<times> Scanner" where
  "peekAhead k s =
     (let s1 = fillTo (position s + k) s
      in (if position s1 + k < length (buffer s1) then buffer s1 ! (position s1 + k) else NUL, s1))"

definition advance :: "Scanner \<Rightarrow> Scanner" where
  "advance s =
     (if position s < length (buffer s)
      then s\<lparr>position := position s + 1, column := column s + 1, offset := offset s + 1\<rparr>
      else s)"

definition isEOF :: "Scanner \<Rightarrow> bool \<times> Scanner" where
  "isEOF s =
     (if length (buffer s) \<le> position s
      then (case fillBuffer s of (ok, s1) \<Rightarrow> (\<not> ok, s1))
      else (False, s))"

definition isEOFAt :: "nat \<Rightarrow> Scanner \<Rightarrow> bool \<times> Scanner" where
  "isEOFAt k s =
     (let s1 = fillTo (position s + k) s in (length (buffer s1) \<le> position s1 + k, s1))"

definition makeToken :: "TokenType \<Rightarrow> string \<Rightarrow> Scanner \<Rightarrow> Token" where
  "makeToken t v s = Token t v (line s) (column s) (offset s)"

text \<open>\<open>s.line++; s.column = 1\<close>, which follows every consumed newline.\<close>

definition nextLine :: "Scanner \<Rightarrow> Scanner" where
  "nextLine s = s\<lparr>line := line s + 1, column := 1\<rparr>"

text \<open>The bytes the scanner has not consumed yet, in the buffer and in the reader.\<close>

definition unread :: "Scanner \<Rightarrow> nat" where
  "unread s = (length (buffer s) - position s) + length (reader s)"


text \<open>
  \<open>fills s s'\<close>: \<open>s'\<close> is \<open>s\<close> after some bytes have moved from the reader to the
  buffer, which is all that \<open>peek\<close>, \<open>peekAhead\<close>, \<open>isEOF\<close> and \<open>isEOFAt\<close> do to the
  state.
\<close>

definition fills :: "Scanner \<Rightarrow> Scanner \<Rightarrow> bool" where
  "fills s s' = (\<exists>k. s' = s\<lparr>reader := drop k (reader s), buffer := buffer s @ take k (reader s)\<rparr>)"

lemma fills_refl: "fills s s"
  unfolding fills_def by (rule exI [of _ 0]) simp

lemma fills_trans: "fills s s1 \<Longrightarrow> fills s1 s2 \<Longrightarrow> fills s s2"
proof -
  assume "fills s s1" and "fills s1 s2"
  then obtain k j where
    k: "s1 = s\<lparr>reader := drop k (reader s), buffer := buffer s @ take k (reader s)\<rparr>" and
    j: "s2 = s1\<lparr>reader := drop j (reader s1), buffer := buffer s1 @ take j (reader s1)\<rparr>"
    unfolding fills_def by blast
  have "s2 = s\<lparr>reader := drop (k + j) (reader s), buffer := buffer s @ take (k + j) (reader s)\<rparr>"
  proof -
    have "drop j (drop k (reader s)) = drop (k + j) (reader s)" by (simp add: add.commute)
    moreover have "take k (reader s) @ take j (drop k (reader s)) = take (k + j) (reader s)"
      by (simp add: take_add)
    ultimately show ?thesis by (simp add: j k)
  qed
  then show ?thesis unfolding fills_def by blast
qed

lemma fillBuffer_fills: "fills s (snd (fillBuffer s))"
proof (cases "reader s")
  case Nil
  then show ?thesis by (simp add: fillBuffer_def fills_refl)
next
  case (Cons b r)
  then show ?thesis
    unfolding fills_def by (intro exI [of _ 1]) (simp add: fillBuffer_def)
qed

lemma fillTo_fills: "fills s (fillTo n s)"
proof (induction n s rule: fillTo.induct)
  case (1 n s)
  show ?case
  proof (cases "length (buffer s) \<le> n")
    case False
    then show ?thesis by (simp add: fillTo.simps fills_refl)
  next
    case True
    obtain ok s1 where f: "fillBuffer s = (ok, s1)" by (cases "fillBuffer s")
    have fs: "fills s s1" using fillBuffer_fills [of s] f by simp
    show ?thesis
    proof (cases ok)
      case True
      with "1.IH" \<open>length (buffer s) \<le> n\<close> f have "fills s1 (fillTo n s1)" by simp
      with fs have "fills s (fillTo n s1)" by (rule fills_trans)
      with True f \<open>length (buffer s) \<le> n\<close> show ?thesis by (simp add: fillTo.simps [of n s])
    next
      case False
      with f fs \<open>length (buffer s) \<le> n\<close> show ?thesis by (simp add: fillTo.simps [of n s])
    qed
  qed
qed

lemma peek_fills: "fills s (snd (peek s))"
  by (simp add: peek_def Let_def fillBuffer_fills fills_refl)

lemma peekAhead_fills: "fills s (snd (peekAhead k s))"
  by (simp add: peekAhead_def Let_def fillTo_fills)

lemma isEOF_fills: "fills s (snd (isEOF s))"
  using fillBuffer_fills [of s]
  by (auto simp: isEOF_def fills_refl split: prod.splits)

lemma isEOFAt_fills: "fills s (snd (isEOFAt k s))"
  by (simp add: isEOFAt_def Let_def fillTo_fills)

lemma fills_fields:
  "fills s s' \<Longrightarrow>
     position s' = position s \<and> line s' = line s \<and> column s' = column s
     \<and> offset s' = offset s \<and> inFlow s' = inFlow s \<and> tokens s' = tokens s
     \<and> tokenIndex s' = tokenIndex s \<and> indentStack s' = indentStack s
     \<and> buffer s' @ reader s' = buffer s @ reader s \<and> length (buffer s) \<le> length (buffer s')"
  unfolding fills_def by auto

lemma fills_unread: "fills s s' \<Longrightarrow> unread s' \<le> unread s"
  unfolding fills_def unread_def by auto

text \<open>
  \<open>ahead s0 s\<close>: since \<open>s0\<close> the scanner has either consumed a byte or has a byte in
  the buffer to consume. It holds after \<open>isEOF\<close> has answered no, and then \<open>advance\<close>
  leaves less unread input than \<open>s0\<close> had: every loop of the scanner ends.
\<close>

definition ahead :: "Scanner \<Rightarrow> Scanner \<Rightarrow> bool" where
  "ahead s0 s = (unread s < unread s0 \<or> (unread s \<le> unread s0 \<and> position s < length (buffer s)))"

lemma isEOF_ahead: "isEOF s = (False, s1) \<Longrightarrow> ahead s s1"
  by (auto simp: isEOF_def ahead_def fillBuffer_def unread_def split: if_splits list.splits)

lemma fills_ahead: "ahead s0 s \<Longrightarrow> fills s s' \<Longrightarrow> ahead s0 s'"
proof -
  assume a: "ahead s0 s" and f: "fills s s'"
  from f have "unread s' \<le> unread s" by (rule fills_unread)
  moreover from f have "position s' = position s" "length (buffer s) \<le> length (buffer s')"
    by (simp_all add: fills_fields)
  ultimately show ?thesis using a unfolding ahead_def by auto
qed

lemma peek_ahead: "ahead s0 s \<Longrightarrow> peek s = (c, s') \<Longrightarrow> ahead s0 s'"
  using fills_ahead [OF _ peek_fills [of s]] by simp

lemma peekAhead_ahead: "ahead s0 s \<Longrightarrow> peekAhead k s = (c, s') \<Longrightarrow> ahead s0 s'"
  using fills_ahead [OF _ peekAhead_fills [of s k]] by simp

lemma advance_unread: "unread (advance s) \<le> unread s"
  by (auto simp: advance_def unread_def)

lemma advance_ahead: "ahead s0 s \<Longrightarrow> unread (advance s) < unread s0"
  by (auto simp: ahead_def advance_def unread_def)

lemma nextLine_unread [simp]: "unread (nextLine s) = unread s"
  by (simp add: nextLine_def unread_def)

text \<open>
  The loop \<open>for !s.isEOF() && P(s.peek()) { buf.WriteByte(s.peek()); s.advance() }\<close>,
  which the source writes out in \<open>scanComment\<close>, \<open>scanAnchor\<close>, \<open>scanAlias\<close>, \<open>scanTag\<close>,
  the block scalars, \<open>skipWhitespace\<close> and \<open>skipToEndOfLine\<close> (the last two keep no
  bytes).
\<close>

function scanWhile :: "(char \<Rightarrow> bool) \<Rightarrow> string \<Rightarrow> Scanner \<Rightarrow> string \<times> Scanner" where
  "scanWhile P acc s =
     (case isEOF s of
        (True, s1) \<Rightarrow> (acc, s1)
      | (False, s1) \<Rightarrow>
          (case peek s1 of (ch, s2) \<Rightarrow>
             if P ch
             then (case peek s2 of (ch2, s3) \<Rightarrow> scanWhile P (acc @ [ch2]) (advance s3))
             else (acc, s2)))"
  by pat_completeness auto
termination
  apply (relation "measure (\<lambda>(P, acc, s). unread s)")
   apply simp
  apply simp
  apply (metis isEOF_ahead peek_ahead advance_ahead)
  done

declare scanWhile.simps [simp del]

definition skipWhitespace :: "Scanner \<Rightarrow> Scanner" where
  "skipWhitespace s = snd (scanWhile (\<lambda>c. c = SP \<or> c = TAB) [] s)"

definition skipToEndOfLine :: "Scanner \<Rightarrow> Scanner" where
  "skipToEndOfLine s = snd (scanWhile (\<lambda>c. c \<noteq> NL) [] s)"


abbreviation DQ :: char where "DQ \<equiv> CHR 0x22"
abbreviation SQ :: char where "SQ \<equiv> CHR 0x27"
abbreviation BSL :: char where "BSL \<equiv> CHR 0x5C"

lemma scanWhile_unread: "unread (snd (scanWhile P acc s)) \<le> unread s"
proof (induction P acc s rule: scanWhile.induct)
  case (1 P acc s)
  obtain e s1 where e: "isEOF s = (e, s1)" by (cases "isEOF s")
  have u1: "unread s1 \<le> unread s"
    using fills_unread [OF isEOF_fills [of s]] e by simp
  show ?case
  proof (cases e)
    case True
    with e u1 show ?thesis by (simp add: scanWhile.simps [of P acc s])
  next
    case False
    obtain ch s2 where p: "peek s1 = (ch, s2)" by (cases "peek s1")
    have u2: "unread s2 \<le> unread s1"
      using fills_unread [OF peek_fills [of s1]] p by simp
    show ?thesis
    proof (cases "P ch")
      case no: False
      with False e p u1 u2 show ?thesis by (simp add: scanWhile.simps [of P acc s])
    next
      case yes: True
      obtain ch2 s3 where q: "peek s2 = (ch2, s3)" by (cases "peek s2")
      have u3: "unread s3 \<le> unread s2"
        using fills_unread [OF peek_fills [of s2]] q by simp
      have "unread (snd (scanWhile P (acc @ [ch2]) (advance s3))) \<le> unread (advance s3)"
        using "1.IH" False e p q yes by simp
      also have "\<dots> \<le> unread s3" by (rule advance_unread)
      finally show ?thesis
        using False e p q yes u1 u2 u3 by (simp add: scanWhile.simps [of P acc s])
    qed
  qed
qed

text \<open>In a state with a byte in the buffer at the position, the reads change nothing.\<close>

lemma isEOF_buffered: "position s < length (buffer s) \<Longrightarrow> isEOF s = (False, s)"
  by (simp add: isEOF_def)

lemma peek_buffered: "position s < length (buffer s) \<Longrightarrow> peek s = (buffer s ! position s, s)"
  by (simp add: peek_def)

lemma advance_buffered: "position s < length (buffer s) \<Longrightarrow> unread (advance s) < unread s"
  by (auto simp: advance_def unread_def)

lemma scanWhile_consumes:
  "position s < length (buffer s) \<Longrightarrow> P (buffer s ! position s) \<Longrightarrow>
     unread (snd (scanWhile P acc s)) < unread s"
proof -
  assume b: "position s < length (buffer s)" and p: "P (buffer s ! position s)"
  have "unread (snd (scanWhile P (acc @ [buffer s ! position s]) (advance s))) \<le> unread (advance s)"
    by (rule scanWhile_unread)
  also have "\<dots> < unread s" using b by (rule advance_buffered)
  finally show ?thesis
    using b p by (simp add: scanWhile.simps [of P acc s] isEOF_buffered peek_buffered)
qed

subsection \<open>The scan functions\<close>

text \<open>
  Every scan function of the source returns \<open>(Token, error)\<close> with a \<open>nil\<close> error; the
  model returns the token and the scanner's new state. A token made from
  \<open>startPos := s.makePosition()\<close> carries the position of the state the function
  started in, which is \<open>makeToken\<close> on that state.
\<close>

definition scanComment :: "Scanner \<Rightarrow> Token \<times> Scanner" where
  "scanComment s =
     (case scanWhile (\<lambda>c. c \<noteq> NL) [] (advance s) of
        (comment, s1) \<Rightarrow> (makeToken TokenComment (TrimSpace comment) s, s1))"

definition scanNewline :: "Scanner \<Rightarrow> Token \<times> Scanner" where
  "scanNewline s = (makeToken TokenNewLine [NL] s, nextLine (advance s))"

definition scanDocumentStart :: "Scanner \<Rightarrow> Token \<times> Scanner" where
  "scanDocumentStart s = (makeToken TokenDocumentStart ''---'' s, advance (advance (advance s)))"

definition scanDocumentEnd :: "Scanner \<Rightarrow> Token \<times> Scanner" where
  "scanDocumentEnd s = (makeToken TokenDocumentEnd ''...'' s, advance (advance (advance s)))"

definition scanSequenceItem :: "Scanner \<Rightarrow> Token \<times> Scanner" where
  "scanSequenceItem s = (makeToken TokenSequenceItem ''-'' s, advance (advance s))"

definition scanFlowSequenceStart :: "Scanner \<Rightarrow> Token \<times> Scanner" where
  "scanFlowSequenceStart s =
     (makeToken TokenFlowSequenceStart ''['' s,
      (advance s)\<lparr>inFlow := wrap64 (inFlow (advance s) + 1)\<rparr>)"

definition scanFlowSequenceEnd :: "Scanner \<Rightarrow> Token \<times> Scanner" where
  "scanFlowSequenceEnd s =
     (makeToken TokenFlowSequenceEnd '']'' s,
      (let s1 = advance s
       in if inFlow s1 > 0 then s1\<lparr>inFlow := wrap64 (inFlow s1 - 1)\<rparr> else s1))"

definition scanFlowMappingStart :: "Scanner \<Rightarrow> Token \<times> Scanner" where
  "scanFlowMappingStart s =
     (makeToken TokenFlowMappingStart ''{'' s,
      (advance s)\<lparr>inFlow := wrap64 (inFlow (advance s) + 1)\<rparr>)"

definition scanFlowMappingEnd :: "Scanner \<Rightarrow> Token \<times> Scanner" where
  "scanFlowMappingEnd s =
     (makeToken TokenFlowMappingEnd ''}'' s,
      (let s1 = advance s
       in if inFlow s1 > 0 then s1\<lparr>inFlow := wrap64 (inFlow s1 - 1)\<rparr> else s1))"

definition scanFlowEntry :: "Scanner \<Rightarrow> Token \<times> Scanner" where
  "scanFlowEntry s = (makeToken TokenFlowEntry '','' s, advance s)"

definition scanKey :: "Scanner \<Rightarrow> Token \<times> Scanner" where
  "scanKey s = (makeToken TokenKey '':'' s, advance s)"

subsection \<open>Block scalars and chomping\<close>

definition scanChompingIndicator :: "Scanner \<Rightarrow> string \<times> Scanner" where
  "scanChompingIndicator s =
     (case peek s of (ch, s1) \<Rightarrow>
        if ch = CHR ''+'' \<or> ch = CHR ''-'' then ([ch], advance s1) else ([], s1))"

definition applyChomping :: "string \<Rightarrow> string \<Rightarrow> string" where
  "applyChomping v chomping =
     (if chomping = ''-'' then TrimRight v [NL]
      else if chomping \<noteq> ''+'' then TrimRight v [NL] @ [NL]
      else v)"

definition countIndent :: "Scanner \<Rightarrow> nat" where
  "countIndent s = length (takeWhile (\<lambda>c. c = SP) (drop (position s) (buffer s)))"

text \<open>\<open>for i := 0; i < count && !s.isEOF() && s.peek() == ' '; i++ { s.advance() }\<close>\<close>

fun skipIndent :: "nat \<Rightarrow> Scanner \<Rightarrow> Scanner" where
  "skipIndent 0 s = s"
| "skipIndent (Suc n) s =
     (case isEOF s of
        (True, s1) \<Rightarrow> s1
      | (False, s1) \<Rightarrow>
          (case peek s1 of (ch, s2) \<Rightarrow> if ch = SP then skipIndent n (advance s2) else s2))"

text \<open>\<open>if !s.isEOF() && s.peek() == '\n' { s.advance(); s.line++; s.column = 1 }\<close>\<close>

definition skipNewline :: "Scanner \<Rightarrow> Scanner" where
  "skipNewline s =
     (case isEOF s of
        (True, s1) \<Rightarrow> s1
      | (False, s1) \<Rightarrow>
          (case peek s1 of (ch, s2) \<Rightarrow> if ch = NL then nextLine (advance s2) else s2))"

text \<open>The test \<open>indent < baseIndent && s.peek() != '\n'\<close> that ends a block scalar.\<close>

definition blockEnds :: "nat \<Rightarrow> nat \<Rightarrow> Scanner \<Rightarrow> bool \<times> Scanner" where
  "blockEnds indent baseIndent s =
     (if indent < baseIndent then (case peek s of (ch, s1) \<Rightarrow> (ch \<noteq> NL, s1)) else (False, s))"

lemma skipIndent_unread: "unread (skipIndent n s) \<le> unread s"
proof (induction n arbitrary: s)
  case 0
  show ?case by simp
next
  case (Suc n)
  obtain e s1 where e: "isEOF s = (e, s1)" by (cases "isEOF s")
  obtain ch s2 where p: "peek s1 = (ch, s2)" by (cases "peek s1")
  have u1: "unread s1 \<le> unread s"
    using fills_unread [OF isEOF_fills [of s]] e by simp
  have u2: "unread s2 \<le> unread s1"
    using fills_unread [OF peek_fills [of s1]] p by simp
  have "unread (skipIndent n (advance s2)) \<le> unread s2"
    using Suc.IH [of "advance s2"] advance_unread [of s2] by simp
  with e p u1 u2 show ?case by (cases e) auto
qed

lemma skipNewline_unread: "unread (skipNewline s) \<le> unread s"
proof -
  obtain e s1 where e: "isEOF s = (e, s1)" by (cases "isEOF s")
  obtain ch s2 where p: "peek s1 = (ch, s2)" by (cases "peek s1")
  have u1: "unread s1 \<le> unread s"
    using fills_unread [OF isEOF_fills [of s]] e by simp
  have u2: "unread s2 \<le> unread s1"
    using fills_unread [OF peek_fills [of s1]] p by simp
  from e p u1 u2 advance_unread [of s2] show ?thesis
    by (cases e) (auto simp: skipNewline_def)
qed

lemma blockEnds_unread: "unread (snd (blockEnds i b s)) \<le> unread s"
  using fills_unread [OF peek_fills [of s]]
  by (auto simp: blockEnds_def split: prod.splits)

lemma isEOF_unread: "isEOF s = (e, s1) \<Longrightarrow> unread s1 \<le> unread s"
  using fills_unread [OF isEOF_fills [of s]] by simp

lemma peek_unread: "peek s = (c, s1) \<Longrightarrow> unread s1 \<le> unread s"
  using fills_unread [OF peek_fills [of s]] by simp

lemma literal_step:
  assumes "isEOF s = (False, s1)" and "blockEnds i b s1 = (e2, s2)"
    and "scanWhile P c (skipIndent i s2) = (c1, s3)" and "isEOF s3 = (False, s4)"
  shows "unread (advance s4) < unread s"
proof -
  have "unread (advance s4) < unread s3"
    using assms(4) by (intro advance_ahead isEOF_ahead)
  also have "unread s3 \<le> unread (skipIndent i s2)"
    using scanWhile_unread [of P c "skipIndent i s2"] assms(3) by simp
  also have "\<dots> \<le> unread s2" by (rule skipIndent_unread)
  also have "\<dots> \<le> unread s1" using blockEnds_unread [of i b s1] assms(2) by simp
  also have "\<dots> \<le> unread s" using assms(1) by (rule isEOF_unread)
  finally show ?thesis .
qed

text \<open>
  The loop of \<open>scanLiteralBlock\<close>. When the input ends inside a line the source goes
  round once more and the loop's test \<open>!s.isEOF()\<close> ends it; the model leaves there.
\<close>

function literalLoop :: "nat \<Rightarrow> string \<Rightarrow> Scanner \<Rightarrow> string \<times> Scanner" where
  "literalLoop baseIndent content s =
     (case isEOF s of
        (True, s1) \<Rightarrow> (content, s1)
      | (False, s1) \<Rightarrow>
          (case blockEnds (countIndent s1) baseIndent s1 of
             (True, s2) \<Rightarrow> (content, s2)
           | (False, s2) \<Rightarrow>
               (case scanWhile (\<lambda>c. c \<noteq> NL) content (skipIndent (countIndent s1) s2) of
                  (content1, s3) \<Rightarrow>
                    (case isEOF s3 of
                       (True, s4) \<Rightarrow> (content1, s4)
                     | (False, s4) \<Rightarrow>
                         literalLoop baseIndent (content1 @ [NL]) (nextLine (advance s4))))))"
  by pat_completeness auto
termination
  apply (relation "measure (\<lambda>(b, c, s). unread s)")
   apply simp
  apply simp
  apply (metis literal_step)
  done

declare literalLoop.simps [simp del]

definition scanLiteralBlock :: "Scanner \<Rightarrow> Token \<times> Scanner" where
  "scanLiteralBlock s =
     (case scanChompingIndicator (advance s) of (chomping, s1) \<Rightarrow>
        (let s2 = skipNewline (skipToEndOfLine s1) in
           case literalLoop (countIndent s2) [] s2 of
             (content, s3) \<Rightarrow>
               (makeToken TokenLiteralBlock (applyChomping content chomping) s, s3)))"

text \<open>
  One line of a folded block, after its indentation has been skipped: a line with
  content is joined to the text before it by a space (unless a blank line came
  before), a blank line adds a newline.
\<close>

definition foldedLine :: "string \<Rightarrow> bool \<Rightarrow> Scanner \<Rightarrow> string \<times> bool \<times> Scanner" where
  "foldedLine content lastWasEmpty s =
     (case peek s of (ch, s1) \<Rightarrow>
        if ch \<noteq> NL
        then (case scanWhile (\<lambda>c. c \<noteq> NL)
                     (if content \<noteq> [] \<and> \<not> lastWasEmpty then content @ [SP] else content) s1 of
                (content1, s2) \<Rightarrow> (content1, False, s2))
        else ((if content \<noteq> [] then content @ [NL] else content), True, s1))"

lemma foldedLine_unread: "foldedLine c l s = (c1, l1, s1) \<Longrightarrow> unread s1 \<le> unread s"
proof -
  assume a: "foldedLine c l s = (c1, l1, s1)"
  obtain ch t where p: "peek s = (ch, t)" by (cases "peek s")
  have u: "unread t \<le> unread s" using p by (rule peek_unread)
  show ?thesis
  proof (cases "ch = NL")
    case True
    with a p u show ?thesis by (simp add: foldedLine_def)
  next
    case False
    let ?c0 = "if c \<noteq> [] \<and> \<not> l then c @ [SP] else c"
    have "unread (snd (scanWhile (\<lambda>c. c \<noteq> NL) ?c0 t)) \<le> unread t"
      by (rule scanWhile_unread)
    with a p u False show ?thesis
      by (auto simp: foldedLine_def split: prod.splits)
  qed
qed

lemma countIndent_pos:
  "0 < countIndent s \<Longrightarrow> position s < length (buffer s) \<and> buffer s ! position s = SP"
proof -
  assume a: "0 < countIndent s"
  let ?r = "drop (position s) (buffer s)"
  from a have ne: "takeWhile (\<lambda>c. c = SP) ?r \<noteq> []" by (simp add: countIndent_def)
  then have r: "?r \<noteq> []" by auto
  then have p: "position s < length (buffer s)" by simp
  from ne r have "hd ?r = SP" by (cases ?r) (auto split: if_splits)
  with p show ?thesis by (simp add: hd_drop_conv_nth)
qed

lemma skipIndent_consumes:
  assumes "0 < n" and "position s < length (buffer s)" and "buffer s ! position s = SP"
  shows "unread (skipIndent n s) < unread s"
proof -
  from assms(1) obtain m where n: "n = Suc m" by (cases n) auto
  have "unread (skipIndent m (advance s)) \<le> unread (advance s)" by (rule skipIndent_unread)
  also have "\<dots> < unread s" using assms(2) by (rule advance_buffered)
  finally show ?thesis
    using assms(2,3) by (simp add: n isEOF_buffered peek_buffered)
qed

lemma folded_step:
  assumes e: "isEOF s = (False, s1)" and b: "blockEnds (countIndent s1) baseIndent s1 = (e2, s2)"
    and f: "foldedLine c l (skipIndent (countIndent s1) s2) = (c1, l1, s3)"
  shows "unread (skipNewline s3) < unread s"
proof -
  have u1: "unread s1 \<le> unread s" using e by (rule isEOF_unread)
  have u2: "unread s2 \<le> unread s1" using blockEnds_unread [of "countIndent s1" baseIndent s1] b by simp
  have u3: "unread (skipIndent (countIndent s1) s2) \<le> unread s2" by (rule skipIndent_unread)
  have u4: "unread s3 \<le> unread (skipIndent (countIndent s1) s2)" using f by (rule foldedLine_unread)
  have u5: "unread (skipNewline s3) \<le> unread s3" by (rule skipNewline_unread)
  from isEOF_ahead [OF e] consider "unread s1 < unread s"
    | "position s1 < length (buffer s1)" unfolding ahead_def by blast
  then show ?thesis
  proof cases
    case 1
    with u2 u3 u4 u5 show ?thesis by linarith
  next
    case 2
    then have s2: "s2 = s1" using b by (auto simp: blockEnds_def peek_buffered split: if_splits)
    show ?thesis
    proof (cases "0 < countIndent s1")
      case True
      with countIndent_pos [of s1] have "unread (skipIndent (countIndent s1) s1) < unread s1"
        by (intro skipIndent_consumes) simp_all
      moreover from u4 s2 have "unread s3 \<le> unread (skipIndent (countIndent s1) s1)" by simp
      ultimately show ?thesis using u1 u5 by linarith
    next
      case False
      then have f': "foldedLine c l s1 = (c1, l1, s3)" using f s2 by simp
      show ?thesis
      proof (cases "buffer s1 ! position s1 = NL")
        case True
        with f' 2 have "s3 = s1" by (simp add: foldedLine_def peek_buffered)
        with True 2 have "skipNewline s3 = nextLine (advance s1)"
          by (simp add: skipNewline_def isEOF_buffered peek_buffered)
        with advance_buffered [OF 2] u1 show ?thesis by simp
      next
        case False
        let ?c0 = "if c \<noteq> [] \<and> \<not> l then c @ [SP] else c"
        from f' 2 False have "s3 = snd (scanWhile (\<lambda>c. c \<noteq> NL) ?c0 s1)"
          by (auto simp: foldedLine_def peek_buffered split: prod.splits)
        with scanWhile_consumes [of s1 "\<lambda>c. c \<noteq> NL" ?c0] 2 False
        have "unread s3 < unread s1" by simp
        with u1 u5 show ?thesis by linarith
      qed
    qed
  qed
qed

text \<open>The loop of \<open>scanFoldedBlock\<close>.\<close>

function foldedLoop :: "nat \<Rightarrow> string \<Rightarrow> bool \<Rightarrow> Scanner \<Rightarrow> string \<times> Scanner" where
  "foldedLoop baseIndent content lastWasEmpty s =
     (case isEOF s of
        (True, s1) \<Rightarrow> (content, s1)
      | (False, s1) \<Rightarrow>
          (case blockEnds (countIndent s1) baseIndent s1 of
             (True, s2) \<Rightarrow> (content, s2)
           | (False, s2) \<Rightarrow>
               (case foldedLine content lastWasEmpty (skipIndent (countIndent s1) s2) of
                  (content1, last1, s3) \<Rightarrow>
                    foldedLoop baseIndent content1 last1 (skipNewline s3))))"
  by pat_completeness auto
termination
  apply (relation "measure (\<lambda>(b, c, l, s). unread s)")
   apply simp
  apply simp
  apply (metis folded_step)
  done

declare foldedLoop.simps [simp del]

definition scanFoldedBlock :: "Scanner \<Rightarrow> Token \<times> Scanner" where
  "scanFoldedBlock s =
     (case scanChompingIndicator (advance s) of (chomping, s1) \<Rightarrow>
        (let s2 = skipNewline (skipToEndOfLine s1) in
           case foldedLoop (countIndent s2) [] False s2 of
             (content, s3) \<Rightarrow>
               (makeToken TokenFoldedBlock (applyChomping content chomping) s, s3)))"

subsection \<open>Quoted strings, anchors, aliases, tags\<close>

function singleQuotedLoop :: "string \<Rightarrow> Scanner \<Rightarrow> string \<times> Scanner" where
  "singleQuotedLoop str s =
     (case isEOF s of
        (True, s1) \<Rightarrow> (str, s1)
      | (False, s1) \<Rightarrow>
          (case peek s1 of (ch, s2) \<Rightarrow>
             if ch = SQ
             then (case peekAhead 1 s2 of (c1, s3) \<Rightarrow>
                     if c1 = SQ then singleQuotedLoop (str @ [SQ]) (advance (advance s3))
                     else (str, advance s3))
             else singleQuotedLoop (str @ [ch])
                    (if ch = NL then nextLine (advance s2) else advance s2)))"
  by pat_completeness auto
termination
  apply (relation "measure (\<lambda>(str, s). unread s)")
    apply simp
   apply simp
   apply (metis isEOF_ahead peek_ahead peekAhead_ahead advance_ahead advance_unread le_less_trans)
  apply simp
  apply (metis isEOF_ahead peek_ahead advance_ahead)
  done

declare singleQuotedLoop.simps [simp del]

definition scanSingleQuotedString :: "Scanner \<Rightarrow> Token \<times> Scanner" where
  "scanSingleQuotedString s =
     (case singleQuotedLoop [] (advance s) of (str, s1) \<Rightarrow> (makeToken TokenString str s, s1))"

text \<open>The \<open>switch escape\<close> of \<open>scanDoubleQuotedString\<close>.\<close>

definition unescape :: "char \<Rightarrow> char" where
  "unescape c =
     (if c = CHR ''n'' then NL
      else if c = CHR ''t'' then TAB
      else if c = CHR ''r'' then CR
      else if c = BSL then BSL
      else if c = DQ then DQ
      else if c = CHR ''0'' then NUL
      else if c = CHR ''a'' then CHR 0x07
      else if c = CHR ''b'' then CHR 0x08
      else if c = CHR ''v'' then CHR 0x0B
      else if c = CHR ''f'' then CHR 0x0C
      else if c = CHR ''e'' then CHR 0x1B
      else c)"

function doubleQuotedLoop :: "string \<Rightarrow> Scanner \<Rightarrow> string \<times> Scanner" where
  "doubleQuotedLoop str s =
     (case isEOF s of
        (True, s1) \<Rightarrow> (str, s1)
      | (False, s1) \<Rightarrow>
          (case peek s1 of (ch, s2) \<Rightarrow>
             if ch = DQ then (str, advance s2)
             else if ch = BSL
             then (case isEOF (advance s2) of
                     (True, s3) \<Rightarrow> doubleQuotedLoop str s3
                   | (False, s3) \<Rightarrow>
                       (case peek s3 of (escape, s4) \<Rightarrow>
                          doubleQuotedLoop (str @ [unescape escape]) (advance s4)))
             else doubleQuotedLoop (str @ [ch])
                    (if ch = NL then nextLine (advance s2) else advance s2)))"
  by pat_completeness auto
termination
  apply (relation "measure (\<lambda>(str, s). unread s)")
     apply simp
    apply simp
    apply (metis isEOF_ahead peek_ahead advance_ahead isEOF_unread le_less_trans)
   apply simp
   apply (metis isEOF_ahead peek_ahead advance_ahead isEOF_unread peek_unread advance_unread
      le_less_trans)
  apply simp
  apply (metis isEOF_ahead peek_ahead advance_ahead)
  done

declare doubleQuotedLoop.simps [simp del]

definition scanDoubleQuotedString :: "Scanner \<Rightarrow> Token \<times> Scanner" where
  "scanDoubleQuotedString s =
     (case doubleQuotedLoop [] (advance s) of (str, s1) \<Rightarrow> (makeToken TokenString str s, s1))"

definition isAnchorChar :: "char \<Rightarrow> bool" where
  "isAnchorChar ch = (isLetterByte ch \<or> isDigitByte ch \<or> ch = CHR ''_'' \<or> ch = CHR ''-'')"

definition scanAnchor :: "Scanner \<Rightarrow> Token \<times> Scanner" where
  "scanAnchor s =
     (case scanWhile isAnchorChar [] (advance s) of
        (anchor, s1) \<Rightarrow> (makeToken TokenAnchor anchor s, s1))"

definition scanAlias :: "Scanner \<Rightarrow> Token \<times> Scanner" where
  "scanAlias s =
     (case scanWhile isAnchorChar [] (advance s) of
        (alias, s1) \<Rightarrow> (makeToken TokenAlias alias s, s1))"

definition scanTag :: "Scanner \<Rightarrow> Token \<times> Scanner" where
  "scanTag s =
     (case peek (advance s) of (ch, s1) \<Rightarrow>
        (case scanWhile (\<lambda>c. \<not> isSpaceByte c) (if ch = CHR ''!'' then ''!'' else [])
                (if ch = CHR ''!'' then advance s1 else s1) of
           (tag, s2) \<Rightarrow> (makeToken TokenTag tag s, s2)))"

subsection \<open>Plain scalars\<close>

text \<open>
  The test \<open>ch == ':' && (s.peekAhead(1) == ' ' || s.peekAhead(1) == '\n' || s.isEOFAt(1))\<close>
  of \<open>scanNext\<close> and \<open>scanScalar\<close>; the reads to its right happen only when the byte is
  a colon.
\<close>

definition atKey :: "char \<Rightarrow> Scanner \<Rightarrow> bool \<times> Scanner" where
  "atKey ch s =
     (if ch = CHR '':''
      then (case peekAhead 1 s of (c1, s1) \<Rightarrow>
              if c1 = SP then (True, s1)
              else (case peekAhead 1 s1 of (c2, s2) \<Rightarrow>
                      if c2 = NL then (True, s2) else isEOFAt 1 s2))
      else (False, s))"

lemma atKey_fills: "fills s (snd (atKey ch s))"
proof -
  obtain c1 s1 where a: "peekAhead 1 s = (c1, s1)" by (cases "peekAhead 1 s")
  obtain c2 s2 where b: "peekAhead 1 s1 = (c2, s2)" by (cases "peekAhead 1 s1")
  have f1: "fills s s1" using peekAhead_fills [of s 1] a by simp
  have f2: "fills s s2" using fills_trans [OF f1 peekAhead_fills [of s1 1]] b by simp
  have f3: "fills s (snd (isEOFAt 1 s2))" using fills_trans [OF f2 isEOFAt_fills [of s2 1]] .
  from a b f1 f2 f3 show ?thesis by (simp add: atKey_def fills_refl)
qed

function scalarLoop :: "string \<Rightarrow> Scanner \<Rightarrow> string \<times> Scanner" where
  "scalarLoop scalar s =
     (case isEOF s of
        (True, s1) \<Rightarrow> (scalar, s1)
      | (False, s1) \<Rightarrow>
          (case peek s1 of (ch, s2) \<Rightarrow>
             (case atKey ch s2 of
                (True, s3) \<Rightarrow> (scalar, s3)
              | (False, s3) \<Rightarrow>
                  if ch = NL \<or> ch = CHR ''#'' then (scalar, s3)
                  else if inFlow s3 > 0 \<and> (ch = CHR '','' \<or> ch = CHR ''}'' \<or> ch = CHR '']'')
                  then (scalar, s3)
                  else scalarLoop (scalar @ [ch]) (advance s3))))"
  by pat_completeness auto
termination
  apply (relation "measure (\<lambda>(scalar, s). unread s)")
   apply simp
  apply simp
  apply (metis isEOF_ahead peek_ahead fills_ahead atKey_fills advance_ahead snd_conv)
  done

declare scalarLoop.simps [simp del]

text \<open>
  \<open>isNumber\<close> walks the value's code points; \<open>numberChars prev rest\<close> is that loop with
  \<open>prev\<close> the byte before the current one (\<open>None\<close> at index 0). \<open>unicode.IsDigit\<close> is
  taken on the ASCII digits: a byte outside ASCII ends the loop with \<open>false\<close>, where
  Go also accepts the decimal digits of other scripts.
\<close>

fun numberChars :: "char option \<Rightarrow> string \<Rightarrow> bool" where
  "numberChars prev [] = True"
| "numberChars prev (ch # rest) =
     (if \<not> isDigitByte ch \<and> ch \<noteq> CHR ''.'' \<and> ch \<noteq> CHR ''-'' \<and> ch \<noteq> CHR ''+''
          \<and> ch \<noteq> CHR ''e'' \<and> ch \<noteq> CHR ''E'' \<and> ch \<noteq> CHR ''_''
      then False
      else if (ch = CHR ''-'' \<or> ch = CHR ''+'') \<and> prev \<noteq> None
              \<and> prev \<noteq> Some (CHR ''e'') \<and> prev \<noteq> Some (CHR ''E'')
      then False
      else numberChars (Some ch) rest)"

definition isNumber :: "string \<Rightarrow> bool" where
  "isNumber v =
     (if length v = 0 then False
      else if v = ''.inf'' \<or> v = ''-.inf'' \<or> v = ''+.inf'' \<or> v = ''.nan'' then True
      else if HasPrefix v ''0x'' \<or> HasPrefix v ''0o'' \<or> HasPrefix v ''0b'' then True
      else numberChars None v)"

definition detectScalarType :: "string \<Rightarrow> TokenType" where
  "detectScalarType v =
     (if v = ''null'' \<or> v = ''~'' \<or> v = '''' then TokenNull
      else (let lower = ToLower v in
        if lower = ''true'' \<or> lower = ''false'' \<or> lower = ''yes'' \<or> lower = ''no''
           \<or> lower = ''on'' \<or> lower = ''off''
        then TokenBoolean
        else if isNumber v then TokenNumber
        else TokenString))"

definition scanScalar :: "Scanner \<Rightarrow> Token \<times> Scanner" where
  "scanScalar s =
     (case scalarLoop [] s of (scalar, s1) \<Rightarrow>
        (makeToken (detectScalarType (TrimSpace scalar)) (TrimSpace scalar) s, s1))"

subsection \<open>\<open>scanNext\<close>, \<open>Scan\<close> and \<open>PushBack\<close>\<close>

text \<open>
  \<open>s.column == 1 && ch == m && s.peekAhead(1) == m && s.peekAhead(2) == m\<close>, for the
  document markers \<open>---\<close> and \<open>...\<close>.
\<close>

definition atMarker :: "char \<Rightarrow> char \<Rightarrow> Scanner \<Rightarrow> bool \<times> Scanner" where
  "atMarker m ch s =
     (if column s = 1 \<and> ch = m
      then (case peekAhead 1 s of (c1, s1) \<Rightarrow>
              if c1 = m then (case peekAhead 2 s1 of (c2, s2) \<Rightarrow> (c2 = m, s2))
              else (False, s1))
      else (False, s))"

text \<open>\<open>ch == '-' && s.peekAhead(1) == ' '\<close>\<close>

definition atSequenceItem :: "char \<Rightarrow> Scanner \<Rightarrow> bool \<times> Scanner" where
  "atSequenceItem ch s =
     (if ch = CHR ''-'' then (case peekAhead 1 s of (c1, s1) \<Rightarrow> (c1 = SP, s1)) else (False, s))"

lemma atMarker_fills: "fills s (snd (atMarker m ch s))"
proof -
  obtain c1 s1 where a: "peekAhead 1 s = (c1, s1)" by (cases "peekAhead 1 s")
  obtain c2 s2 where b: "peekAhead 2 s1 = (c2, s2)" by (cases "peekAhead 2 s1")
  have f1: "fills s s1" using peekAhead_fills [of s 1] a by simp
  have f2: "fills s s2" using fills_trans [OF f1 peekAhead_fills [of s1 2]] b by simp
  from a b f1 f2 show ?thesis by (simp add: atMarker_def fills_refl)
qed

lemma atSequenceItem_fills: "fills s (snd (atSequenceItem ch s))"
  using peekAhead_fills [of s 1]
  by (auto simp: atSequenceItem_def fills_refl split: prod.splits)

text \<open>
  The chain of tests of \<open>scanNext\<close> once a byte \<open>ch\<close> has been read, in the source's
  order and in three parts: \<open>scanByte\<close> up to the sequence item, \<open>scanFlow\<close> from the
  flow brackets to the key, \<open>scanOther\<close> the rest.
\<close>

definition scanOther :: "char \<Rightarrow> Scanner \<Rightarrow> Token \<times> Scanner" where
  "scanOther ch s =
     (if ch = CHR ''|'' then scanLiteralBlock s
      else if ch = CHR ''>'' then scanFoldedBlock s
      else if ch = SQ then scanSingleQuotedString s
      else if ch = DQ then scanDoubleQuotedString s
      else if ch = CHR ''&'' then scanAnchor s
      else if ch = CHR ''*'' then scanAlias s
      else if ch = CHR ''!'' then scanTag s
      else scanScalar s)"

definition scanFlow :: "char \<Rightarrow> Scanner \<Rightarrow> Token \<times> Scanner" where
  "scanFlow ch s =
     (if ch = CHR ''['' then scanFlowSequenceStart s
      else if ch = CHR '']'' then scanFlowSequenceEnd s
      else if ch = CHR ''{'' then scanFlowMappingStart s
      else if ch = CHR ''}'' then scanFlowMappingEnd s
      else if ch = CHR '','' \<and> inFlow s > 0 then scanFlowEntry s
      else (case atKey ch s of
              (True, s1) \<Rightarrow> scanKey s1
            | (False, s1) \<Rightarrow> scanOther ch s1))"

definition scanByte :: "char \<Rightarrow> Scanner \<Rightarrow> Token \<times> Scanner" where
  "scanByte ch s =
     (if ch = CHR ''#'' then scanComment s
      else if ch = NL then scanNewline s
      else (case atMarker (CHR ''-'') ch s of
              (True, s1) \<Rightarrow> scanDocumentStart s1
            | (False, s1) \<Rightarrow>
                (case atMarker (CHR ''.'') ch s1 of
                   (True, s2) \<Rightarrow> scanDocumentEnd s2
                 | (False, s2) \<Rightarrow>
                     (case atSequenceItem ch s2 of
                        (True, s3) \<Rightarrow> scanSequenceItem s3
                      | (False, s3) \<Rightarrow> scanFlow ch s3))))"

definition scanNext :: "Scanner \<Rightarrow> Token \<times> Scanner" where
  "scanNext s =
     (case isEOF (skipWhitespace s) of
        (True, s1) \<Rightarrow> (makeToken TokenEOF [] s1, s1)
      | (False, s1) \<Rightarrow> (case peek s1 of (ch, s2) \<Rightarrow> scanByte ch s2))"

definition Scan :: "Scanner \<Rightarrow> Token \<times> Scanner" where
  "Scan s =
     (if tokenIndex s < length (tokens s)
      then (tokens s ! tokenIndex s, s\<lparr>tokenIndex := tokenIndex s + 1\<rparr>)
      else scanNext s)"

definition PushBack :: "Token \<Rightarrow> Scanner \<Rightarrow> Scanner" where
  "PushBack token s = s\<lparr>tokens := token # drop (tokenIndex s) (tokens s), tokenIndex := 0\<rparr>"

text \<open>Calling \<open>Scan\<close> until \<open>EOF\<close>, at most \<open>n\<close> times: the token stream of an input.\<close>

fun scanAll :: "nat \<Rightarrow> Scanner \<Rightarrow> Token list" where
  "scanAll 0 s = []"
| "scanAll (Suc n) s =
     (case Scan s of (t, s1) \<Rightarrow> if Type t = TokenEOF then [t] else t # scanAll n s1)"

section \<open>Chomping of block scalars\<close>

text \<open>
  The byte that follows the \<open>|\<close> or \<open>>\<close> of a block scalar's header, where
  \<open>scanChompingIndicator\<close> looks for the indicator, and the content the two loops
  collect before \<open>applyChomping\<close> is applied to it.
\<close>

definition blockHeader :: "Scanner \<Rightarrow> char" where
  "blockHeader s = fst (peek (advance s))"

definition literalContent :: "Scanner \<Rightarrow> string" where
  "literalContent s =
     (let s2 = skipNewline (skipToEndOfLine (snd (scanChompingIndicator (advance s))))
      in fst (literalLoop (countIndent s2) [] s2))"

definition foldedContent :: "Scanner \<Rightarrow> string" where
  "foldedContent s =
     (let s2 = skipNewline (skipToEndOfLine (snd (scanChompingIndicator (advance s))))
      in fst (foldedLoop (countIndent s2) [] False s2))"

text \<open>
  The specification's words: \<open>r\<close> is \<open>content\<close> with all its trailing newlines
  stripped.
\<close>

definition trailingNewlinesStripped :: "string \<Rightarrow> string \<Rightarrow> bool" where
  "trailingNewlinesStripped content r =
     ((\<exists>k \<le> length content. content = r @ replicate k NL) \<and> (r = [] \<or> last r \<noteq> NL))"

lemma takeWhile_eq_replicate: "takeWhile (\<lambda>c. c = x) xs = replicate (length (takeWhile (\<lambda>c. c = x) xs)) x"
  by (induction xs) auto

lemma TrimRight_newlines: "trailingNewlinesStripped v (TrimRight v [NL])"
proof -
  let ?P = "\<lambda>c. c = NL"
  let ?k = "length (takeWhile ?P (rev v))"
  have "rev v = takeWhile ?P (rev v) @ dropWhile ?P (rev v)" by simp
  then have "v = rev (dropWhile ?P (rev v)) @ rev (takeWhile ?P (rev v))"
    by (metis rev_append rev_rev_ident)
  moreover have "rev (takeWhile ?P (rev v)) = replicate ?k NL"
    using takeWhile_eq_replicate [of NL "rev v"] by (metis rev_replicate)
  ultimately have eq: "v = TrimRight v [NL] @ replicate ?k NL"
    by (simp add: TrimRight_def)
  have "?k \<le> length (rev v)" by (rule length_takeWhile_le)
  then have k: "?k \<le> length v" by simp
  have "dropWhile ?P (rev v) = [] \<or> hd (dropWhile ?P (rev v)) \<noteq> NL"
    using hd_dropWhile [of ?P "rev v"] by blast
  then have "TrimRight v [NL] = [] \<or> last (TrimRight v [NL]) \<noteq> NL"
    by (auto simp: TrimRight_def last_rev)
  with eq k show ?thesis unfolding trailingNewlinesStripped_def by blast
qed

lemma scanChompingIndicator_header:
  "fst (scanChompingIndicator (advance s)) =
     (if blockHeader s = CHR ''+'' \<or> blockHeader s = CHR ''-'' then [blockHeader s] else [])"
  by (simp add: scanChompingIndicator_def blockHeader_def split: prod.splits)

lemma scanLiteralBlock_value:
  "Value (fst (scanLiteralBlock s)) =
     applyChomping (literalContent s) (fst (scanChompingIndicator (advance s)))"
  by (simp add: scanLiteralBlock_def literalContent_def makeToken_def Let_def split: prod.splits)

lemma scanFoldedBlock_value:
  "Value (fst (scanFoldedBlock s)) =
     applyChomping (foldedContent s) (fst (scanChompingIndicator (advance s)))"
  by (simp add: scanFoldedBlock_def foldedContent_def makeToken_def Let_def split: prod.splits)

text \<open>
  Claim C5. For a literal and for a folded block scalar, the token's value is the
  collected content chomped by the indicator that follows the \<open>|\<close> or \<open>>\<close>: with
  \<open>-\<close> all trailing newlines are stripped, with \<open>+\<close> the content is kept as it is,
  and with no indicator the trailing newlines are replaced by exactly one.
\<close>

theorem block_scalar_chomping:
  "(blockHeader s = CHR ''-'' \<longrightarrow>
      trailingNewlinesStripped (literalContent s) (Value (fst (scanLiteralBlock s)))
      \<and> trailingNewlinesStripped (foldedContent s) (Value (fst (scanFoldedBlock s))))
   \<and> (blockHeader s = CHR ''+'' \<longrightarrow>
      Value (fst (scanLiteralBlock s)) = literalContent s
      \<and> Value (fst (scanFoldedBlock s)) = foldedContent s)
   \<and> (blockHeader s \<noteq> CHR ''-'' \<and> blockHeader s \<noteq> CHR ''+'' \<longrightarrow>
      (\<exists>stem. trailingNewlinesStripped (literalContent s) stem
         \<and> Value (fst (scanLiteralBlock s)) = stem @ [NL])
      \<and> (\<exists>stem. trailingNewlinesStripped (foldedContent s) stem
         \<and> Value (fst (scanFoldedBlock s)) = stem @ [NL]))"
proof (intro conjI impI)
  assume "blockHeader s = CHR ''-''"
  then have c: "fst (scanChompingIndicator (advance s)) = ''-''"
    by (simp add: scanChompingIndicator_header)
  show "trailingNewlinesStripped (literalContent s) (Value (fst (scanLiteralBlock s)))"
    by (simp add: scanLiteralBlock_value c applyChomping_def TrimRight_newlines)
  show "trailingNewlinesStripped (foldedContent s) (Value (fst (scanFoldedBlock s)))"
    by (simp add: scanFoldedBlock_value c applyChomping_def TrimRight_newlines)
next
  assume "blockHeader s = CHR ''+''"
  then have c: "fst (scanChompingIndicator (advance s)) = ''+''"
    by (simp add: scanChompingIndicator_header)
  show "Value (fst (scanLiteralBlock s)) = literalContent s"
    by (simp add: scanLiteralBlock_value c applyChomping_def)
  show "Value (fst (scanFoldedBlock s)) = foldedContent s"
    by (simp add: scanFoldedBlock_value c applyChomping_def)
next
  assume "blockHeader s \<noteq> CHR ''-'' \<and> blockHeader s \<noteq> CHR ''+''"
  then have c: "fst (scanChompingIndicator (advance s)) = []"
    by (simp add: scanChompingIndicator_header)
  show "\<exists>stem. trailingNewlinesStripped (literalContent s) stem
          \<and> Value (fst (scanLiteralBlock s)) = stem @ [NL]"
    by (rule exI [of _ "TrimRight (literalContent s) [NL]"])
       (simp add: scanLiteralBlock_value c applyChomping_def TrimRight_newlines)
  show "\<exists>stem. trailingNewlinesStripped (foldedContent s) stem
          \<and> Value (fst (scanFoldedBlock s)) = stem @ [NL]"
    by (rule exI [of _ "TrimRight (foldedContent s) [NL]"])
       (simp add: scanFoldedBlock_value c applyChomping_def TrimRight_newlines)
qed

theorem block_scalar_chomping_witness:
  "blockHeader (snd (peek (NewScanner (''|-'' @ [NL] @ ''ab'' @ [NL, NL])))) = CHR ''-''
   \<and> literalContent (snd (peek (NewScanner (''|-'' @ [NL] @ ''ab'' @ [NL, NL])))) = ''ab'' @ [NL, NL]
   \<and> trailingNewlinesStripped (literalContent (snd (peek (NewScanner (''|-'' @ [NL] @ ''ab'' @ [NL, NL]))))) (Value (fst (scanLiteralBlock (snd (peek (NewScanner (''|-'' @ [NL] @ ''ab'' @ [NL, NL])))))))
   \<and> Value (fst (scanLiteralBlock (snd (peek (NewScanner (''|-'' @ [NL] @ ''ab'' @ [NL, NL])))))) = ''ab''
   \<and> blockHeader (snd (peek (NewScanner (''>+'' @ [NL] @ ''ab'' @ [NL, NL])))) = CHR ''+''
   \<and> Value (fst (scanFoldedBlock (snd (peek (NewScanner (''>+'' @ [NL] @ ''ab'' @ [NL, NL])))))) = foldedContent (snd (peek (NewScanner (''>+'' @ [NL] @ ''ab'' @ [NL, NL]))))
   \<and> Value (fst (scanFoldedBlock (snd (peek (NewScanner (''>+'' @ [NL] @ ''ab'' @ [NL, NL])))))) = ''ab'' @ [NL]
   \<and> blockHeader (snd (peek (NewScanner (''|'' @ [NL] @ ''ab'' @ [NL, NL])))) = NL
   \<and> Value (fst (scanLiteralBlock (snd (peek (NewScanner (''|'' @ [NL] @ ''ab'' @ [NL, NL])))))) = ''ab'' @ [NL]"
proof -
  let ?a = "snd (peek (NewScanner (''|-'' @ [NL] @ ''ab'' @ [NL, NL])))"
  let ?b = "snd (peek (NewScanner (''>+'' @ [NL] @ ''ab'' @ [NL, NL])))"
  let ?c = "snd (peek (NewScanner (''|'' @ [NL] @ ''ab'' @ [NL, NL])))"
  have a: "blockHeader ?a = CHR ''-''" by code_simp
  have b: "blockHeader ?b = CHR ''+''" by code_simp
  have c: "blockHeader ?c = NL" by code_simp
  have a1: "literalContent ?a = ''ab'' @ [NL, NL]" by code_simp
  have a2: "Value (fst (scanLiteralBlock ?a)) = ''ab''" by code_simp
  have b2: "Value (fst (scanFoldedBlock ?b)) = ''ab'' @ [NL]" by code_simp
  have c2: "Value (fst (scanLiteralBlock ?c)) = ''ab'' @ [NL]" by code_simp
  from block_scalar_chomping [of ?a] a
  have a3: "trailingNewlinesStripped (literalContent ?a) (Value (fst (scanLiteralBlock ?a)))"
    by blast
  from block_scalar_chomping [of ?b] b
  have b3: "Value (fst (scanFoldedBlock ?b)) = foldedContent ?b" by blast
  from a a1 a2 a3 b b2 b3 c c2 show ?thesis by blast
qed

section \<open>The flow depth of the scanner\<close>

text \<open>
  \<open>consumes s s'\<close>: from \<open>s\<close> to \<open>s'\<close> the scanner has only read and consumed input.
  The position has not moved back and stays within the buffer, no byte of the input
  is lost, and the flow depth and the pushed-back tokens are untouched.
\<close>

definition consumes :: "Scanner \<Rightarrow> Scanner \<Rightarrow> bool" where
  "consumes s s' =
     ((position s \<le> length (buffer s) \<longrightarrow>
         position s \<le> position s' \<and> position s' \<le> length (buffer s')
         \<and> length (buffer s') + length (reader s') = length (buffer s) + length (reader s))
      \<and> inFlow s' = inFlow s \<and> tokens s' = tokens s \<and> tokenIndex s' = tokenIndex s)"

lemma consumes_refl: "consumes s s"
  by (simp add: consumes_def)

lemma consumes_trans: "consumes s s1 \<Longrightarrow> consumes s1 s2 \<Longrightarrow> consumes s s2"
  by (auto simp: consumes_def)

lemma fills_consumes: "fills s s' \<Longrightarrow> consumes s s'"
proof -
  assume f: "fills s s'"
  from fills_fields [OF f] have
    "position s' = position s" "inFlow s' = inFlow s" "tokens s' = tokens s"
    "tokenIndex s' = tokenIndex s" "length (buffer s) \<le> length (buffer s')"
    "length (buffer s' @ reader s') = length (buffer s @ reader s)"
    by simp_all
  then show ?thesis by (simp add: consumes_def)
qed

lemma advance_consumes: "consumes s (advance s)"
  by (simp add: consumes_def advance_def)

lemma nextLine_consumes: "consumes s (nextLine s)"
  by (simp add: consumes_def nextLine_def)

lemma isEOF_consumes: "isEOF s = (e, s1) \<Longrightarrow> consumes s s1"
  using fills_consumes [OF isEOF_fills [of s]] by simp

lemma peek_consumes: "peek s = (c, s1) \<Longrightarrow> consumes s s1"
  using fills_consumes [OF peek_fills [of s]] by simp

lemma peekAhead_consumes: "peekAhead k s = (c, s1) \<Longrightarrow> consumes s s1"
  using fills_consumes [OF peekAhead_fills [of s k]] by simp

lemma atKey_consumes: "atKey ch s = (b, s1) \<Longrightarrow> consumes s s1"
  using fills_consumes [OF atKey_fills [of s ch]] by simp

lemma atMarker_consumes: "atMarker m ch s = (b, s1) \<Longrightarrow> consumes s s1"
  using fills_consumes [OF atMarker_fills [of s m ch]] by simp

lemma atSequenceItem_consumes: "atSequenceItem ch s = (b, s1) \<Longrightarrow> consumes s s1"
  using fills_consumes [OF atSequenceItem_fills [of s ch]] by simp

lemmas consumes_steps =
  consumes_refl advance_consumes nextLine_consumes isEOF_consumes peek_consumes
  peekAhead_consumes atKey_consumes atMarker_consumes atSequenceItem_consumes

lemma scanWhile_consumes_input: "consumes s (snd (scanWhile P acc s))"
proof (induction P acc s rule: scanWhile.induct)
  case (1 P acc s)
  obtain e s1 where e: "isEOF s = (e, s1)" by (cases "isEOF s")
  obtain ch s2 where p: "peek s1 = (ch, s2)" by (cases "peek s1")
  obtain ch2 s3 where q: "peek s2 = (ch2, s3)" by (cases "peek s2")
  have c1: "consumes s s1" using e by (rule isEOF_consumes)
  have c2: "consumes s s2" using c1 peek_consumes [OF p] by (rule consumes_trans)
  have c3: "consumes s s3" "consumes s s2" "consumes s s1"
    using c1 c2 consumes_trans [OF c2 peek_consumes [OF q]] by simp_all
  show ?case
  proof (cases "\<not> e \<and> P ch")
    case True
    then have "consumes (advance s3) (snd (scanWhile P (acc @ [ch2]) (advance s3)))"
      using "1.IH" e p q by auto
    with consumes_trans [OF c3(1) advance_consumes]
    have "consumes s (snd (scanWhile P (acc @ [ch2]) (advance s3)))"
      by (rule consumes_trans)
    with True e p q show ?thesis by (simp add: scanWhile.simps [of P acc s])
  next
    case False
    with e p c3 show ?thesis by (cases e) (simp_all add: scanWhile.simps [of P acc s])
  qed
qed

lemma scanWhile_consumes': "scanWhile P acc s = (r, s1) \<Longrightarrow> consumes s s1"
  using scanWhile_consumes_input [of s P acc] by simp

lemma skipIndent_consumes_input: "consumes s (skipIndent n s)"
proof (induction n arbitrary: s)
  case 0
  show ?case by (simp add: consumes_refl)
next
  case (Suc n)
  obtain e s1 where e: "isEOF s = (e, s1)" by (cases "isEOF s")
  obtain ch s2 where p: "peek s1 = (ch, s2)" by (cases "peek s1")
  have c1: "consumes s s1" using e by (rule isEOF_consumes)
  have c2: "consumes s s2" using c1 peek_consumes [OF p] by (rule consumes_trans)
  have c: "consumes s s1" "consumes s s2" "consumes s (advance s2)"
    using c1 c2 consumes_trans [OF c2 advance_consumes] by simp_all
  from c(3) Suc.IH [of "advance s2"] have "consumes s (skipIndent n (advance s2))"
    by (rule consumes_trans)
  with e p c show ?case by (cases e) auto
qed

lemma skipNewline_consumes: "consumes s (skipNewline s)"
proof -
  obtain e s1 where e: "isEOF s = (e, s1)" by (cases "isEOF s")
  obtain ch s2 where p: "peek s1 = (ch, s2)" by (cases "peek s1")
  have c1: "consumes s s1" using e by (rule isEOF_consumes)
  have c2: "consumes s s2" using c1 peek_consumes [OF p] by (rule consumes_trans)
  have c: "consumes s s1" "consumes s s2" "consumes s (nextLine (advance s2))"
    using c1 c2 consumes_trans [OF consumes_trans [OF c2 advance_consumes] nextLine_consumes]
    by simp_all
  with e p show ?thesis by (cases e) (auto simp: skipNewline_def)
qed

lemma blockEnds_consumes: "blockEnds i b s = (e, s1) \<Longrightarrow> consumes s s1"
  by (auto simp: blockEnds_def split: if_splits prod.splits intro: consumes_steps)

lemma literalLoop_consumes: "consumes s (snd (literalLoop b c s))"
proof (induction b c s rule: literalLoop.induct)
  case (1 b c s)
  obtain e s1 where e: "isEOF s = (e, s1)" by (cases "isEOF s")
  obtain e2 s2 where b: "blockEnds (countIndent s1) b s1 = (e2, s2)"
    by (cases "blockEnds (countIndent s1) b s1")
  obtain c1 s3 where w: "scanWhile (\<lambda>c. c \<noteq> NL) c (skipIndent (countIndent s1) s2) = (c1, s3)"
    by (cases "scanWhile (\<lambda>c. c \<noteq> NL) c (skipIndent (countIndent s1) s2)")
  obtain e4 s4 where f: "isEOF s3 = (e4, s4)" by (cases "isEOF s3")
  have c1: "consumes s s1" using e by (rule isEOF_consumes)
  have c2: "consumes s s2" using c1 blockEnds_consumes [OF b] by (rule consumes_trans)
  have "consumes s (skipIndent (countIndent s1) s2)"
    using c2 skipIndent_consumes_input by (rule consumes_trans)
  then have c3: "consumes s s3" using scanWhile_consumes' [OF w] by (rule consumes_trans)
  have c4: "consumes s s4" using c3 isEOF_consumes [OF f] by (rule consumes_trans)
  show ?case
  proof (cases "\<not> e \<and> \<not> e2 \<and> \<not> e4")
    case True
    then have "consumes (nextLine (advance s4))
                 (snd (literalLoop b (c1 @ [NL]) (nextLine (advance s4))))"
      using "1.IH" e b w f by auto
    moreover have "consumes s (nextLine (advance s4))"
      using consumes_trans [OF consumes_trans [OF c4 advance_consumes] nextLine_consumes] .
    ultimately have "consumes s (snd (literalLoop b (c1 @ [NL]) (nextLine (advance s4))))"
      by (blast intro: consumes_trans)
    with True e b w f show ?thesis by (simp add: literalLoop.simps [of b c s])
  next
    case False
    with e b w f c1 c2 c4 show ?thesis
      by (cases e; cases e2; cases e4) (simp_all add: literalLoop.simps [of b c s])
  qed
qed

lemma foldedLine_consumes: "foldedLine c l s = (c1, l1, s1) \<Longrightarrow> consumes s s1"
proof -
  assume a: "foldedLine c l s = (c1, l1, s1)"
  obtain ch t where p: "peek s = (ch, t)" by (cases "peek s")
  have u: "consumes s t" using p by (rule peek_consumes)
  let ?c0 = "if c \<noteq> [] \<and> \<not> l then c @ [SP] else c"
  have "consumes s (snd (scanWhile (\<lambda>c. c \<noteq> NL) ?c0 t))"
    using u scanWhile_consumes_input by (rule consumes_trans)
  with a p u show ?thesis
    by (auto simp: foldedLine_def split: prod.splits if_splits)
qed

lemma foldedLoop_consumes: "consumes s (snd (foldedLoop b c l s))"
proof (induction b c l s rule: foldedLoop.induct)
  case (1 b c l s)
  obtain e s1 where e: "isEOF s = (e, s1)" by (cases "isEOF s")
  obtain e2 s2 where b: "blockEnds (countIndent s1) b s1 = (e2, s2)"
    by (cases "blockEnds (countIndent s1) b s1")
  obtain c1 l1 s3 where w: "foldedLine c l (skipIndent (countIndent s1) s2) = (c1, l1, s3)"
    by (cases "foldedLine c l (skipIndent (countIndent s1) s2)")
  have c1: "consumes s s1" using e by (rule isEOF_consumes)
  have c2: "consumes s s2" using c1 blockEnds_consumes [OF b] by (rule consumes_trans)
  have "consumes s (skipIndent (countIndent s1) s2)"
    using c2 skipIndent_consumes_input by (rule consumes_trans)
  then have c3: "consumes s s3" using foldedLine_consumes [OF w] by (rule consumes_trans)
  have c4: "consumes s (skipNewline s3)" using c3 skipNewline_consumes by (rule consumes_trans)
  show ?case
  proof (cases "\<not> e \<and> \<not> e2")
    case True
    then have "consumes (skipNewline s3) (snd (foldedLoop b c1 l1 (skipNewline s3)))"
      using "1.IH" e b w by auto
    with c4 have "consumes s (snd (foldedLoop b c1 l1 (skipNewline s3)))"
      by (rule consumes_trans)
    with True e b w show ?thesis by (simp add: foldedLoop.simps [of b c l s])
  next
    case False
    with e b c1 c2 show ?thesis
      by (cases e; cases e2) (simp_all add: foldedLoop.simps [of b c l s])
  qed
qed

lemma singleQuotedLoop_consumes: "consumes s (snd (singleQuotedLoop str s))"
proof (induction str s rule: singleQuotedLoop.induct)
  case (1 str s)
  obtain e s1 where e: "isEOF s = (e, s1)" by (cases "isEOF s")
  obtain ch s2 where p: "peek s1 = (ch, s2)" by (cases "peek s1")
  obtain c1 s3 where q: "peekAhead 1 s2 = (c1, s3)" by (cases "peekAhead 1 s2")
  have c1: "consumes s s1" using e by (rule isEOF_consumes)
  have c2: "consumes s s2" using c1 peek_consumes [OF p] by (rule consumes_trans)
  have c3: "consumes s s3" using c2 peekAhead_consumes [OF q] by (rule consumes_trans)
  have c4: "consumes s (advance s3)" using c3 advance_consumes by (rule consumes_trans)
  have c5: "consumes s (advance (advance s3))" using c4 advance_consumes by (rule consumes_trans)
  have c6: "consumes s (advance s2)" using c2 advance_consumes by (rule consumes_trans)
  have c7: "consumes s (nextLine (advance s2))" using c6 nextLine_consumes by (rule consumes_trans)
  note c = c1 c2 c3 c4 c5 c6 c7
  show ?case
  proof (cases e)
    case True
    with e c show ?thesis by (simp add: singleQuotedLoop.simps [of str s])
  next
    case False
    show ?thesis
    proof (cases "ch = SQ")
      case True
      show ?thesis
      proof (cases "c1 = SQ")
        case yes: True
        have "consumes (advance (advance s3)) (snd (singleQuotedLoop (str @ [SQ]) (advance (advance s3))))"
          using "1.IH"(1) e p q False True yes by auto
        with c(5) have "consumes s (snd (singleQuotedLoop (str @ [SQ]) (advance (advance s3))))"
          by (rule consumes_trans)
        with e p q False True yes show ?thesis by (simp add: singleQuotedLoop.simps [of str s])
      next
        case no: False
        with e p q False True c show ?thesis by (simp add: singleQuotedLoop.simps [of str s])
      qed
    next
      case other: False
      let ?t = "if ch = NL then nextLine (advance s2) else advance s2"
      have "consumes ?t (snd (singleQuotedLoop (str @ [ch]) ?t))"
        using "1.IH"(2) e p False other by auto
      moreover have "consumes s ?t" using c by simp
      ultimately have "consumes s (snd (singleQuotedLoop (str @ [ch]) ?t))"
        by (blast intro: consumes_trans)
      with e p False other show ?thesis by (simp add: singleQuotedLoop.simps [of str s])
    qed
  qed
qed

lemma doubleQuotedLoop_consumes: "consumes s (snd (doubleQuotedLoop str s))"
proof (induction str s rule: doubleQuotedLoop.induct)
  case (1 str s)
  obtain e s1 where e: "isEOF s = (e, s1)" by (cases "isEOF s")
  obtain ch s2 where p: "peek s1 = (ch, s2)" by (cases "peek s1")
  obtain e3 s3 where f: "isEOF (advance s2) = (e3, s3)" by (cases "isEOF (advance s2)")
  obtain esc s4 where q: "peek s3 = (esc, s4)" by (cases "peek s3")
  have c1: "consumes s s1" using e by (rule isEOF_consumes)
  have c2: "consumes s s2" using c1 peek_consumes [OF p] by (rule consumes_trans)
  have c3: "consumes s (advance s2)" using c2 advance_consumes by (rule consumes_trans)
  have c4: "consumes s s3" using c3 isEOF_consumes [OF f] by (rule consumes_trans)
  have c5: "consumes s s4" using c4 peek_consumes [OF q] by (rule consumes_trans)
  have c6: "consumes s (advance s4)" using c5 advance_consumes by (rule consumes_trans)
  have c7: "consumes s (nextLine (advance s2))" using c3 nextLine_consumes by (rule consumes_trans)
  note c = c1 c2 c3 c4 c5 c6 c7
  show ?case
  proof (cases e)
    case True
    with e c show ?thesis by (simp add: doubleQuotedLoop.simps [of str s])
  next
    case False
    show ?thesis
    proof (cases "ch = DQ")
      case True
      with e p False c show ?thesis by (simp add: doubleQuotedLoop.simps [of str s])
    next
      case nq: False
      show ?thesis
      proof (cases "ch = BSL")
        case True
        show ?thesis
        proof (cases e3)
          case eof: True
          have "consumes s3 (snd (doubleQuotedLoop str s3))"
            using "1.IH"(1) e p f False nq True eof by auto
          with c(4) have "consumes s (snd (doubleQuotedLoop str s3))" by (rule consumes_trans)
          with e p f False nq True eof show ?thesis
            by (simp add: doubleQuotedLoop.simps [of str s])
        next
          case more: False
          have "consumes (advance s4) (snd (doubleQuotedLoop (str @ [unescape esc]) (advance s4)))"
            using "1.IH"(2) e p f q False nq True more by auto
          with c(6) have "consumes s (snd (doubleQuotedLoop (str @ [unescape esc]) (advance s4)))"
            by (rule consumes_trans)
          with e p f q False nq True more show ?thesis
            by (simp add: doubleQuotedLoop.simps [of str s])
        qed
      next
        case other: False
        let ?t = "if ch = NL then nextLine (advance s2) else advance s2"
        have "consumes ?t (snd (doubleQuotedLoop (str @ [ch]) ?t))"
          using "1.IH"(3) e p False nq other by auto
        moreover have "consumes s ?t" using c by simp
        ultimately have "consumes s (snd (doubleQuotedLoop (str @ [ch]) ?t))"
          by (blast intro: consumes_trans)
        with e p False nq other show ?thesis by (simp add: doubleQuotedLoop.simps [of str s])
      qed
    qed
  qed
qed

lemma scalarLoop_consumes: "consumes s (snd (scalarLoop scalar s))"
proof (induction scalar s rule: scalarLoop.induct)
  case (1 scalar s)
  obtain e s1 where e: "isEOF s = (e, s1)" by (cases "isEOF s")
  obtain ch s2 where p: "peek s1 = (ch, s2)" by (cases "peek s1")
  obtain k s3 where a: "atKey ch s2 = (k, s3)" by (cases "atKey ch s2")
  have c1: "consumes s s1" using e by (rule isEOF_consumes)
  have c2: "consumes s s2" using c1 peek_consumes [OF p] by (rule consumes_trans)
  have c3: "consumes s s3" using c2 atKey_consumes [OF a] by (rule consumes_trans)
  have c4: "consumes s (advance s3)" using c3 advance_consumes by (rule consumes_trans)
  note c = c1 c2 c3 c4
  let ?stop = "e \<or> k \<or> ch = NL \<or> ch = CHR ''#''
     \<or> (inFlow s3 > 0 \<and> (ch = CHR '','' \<or> ch = CHR ''}'' \<or> ch = CHR '']''))"
  show ?case
  proof (cases ?stop)
    case True
    with e p a c show ?thesis
      by (cases e; cases k) (auto simp: scalarLoop.simps [of scalar s])
  next
    case False
    then have "consumes (advance s3) (snd (scalarLoop (scalar @ [ch]) (advance s3)))"
      using "1.IH" e p a by auto
    with c(4) have "consumes s (snd (scalarLoop (scalar @ [ch]) (advance s3)))"
      by (rule consumes_trans)
    with False e p a show ?thesis by (auto simp: scalarLoop.simps [of scalar s])
  qed
qed

lemma scanChompingIndicator_consumes: "consumes s (snd (scanChompingIndicator s))"
proof -
  obtain ch s1 where p: "peek s = (ch, s1)" by (cases "peek s")
  have c1: "consumes s s1" using p by (rule peek_consumes)
  have c2: "consumes s (advance s1)" using c1 advance_consumes by (rule consumes_trans)
  from p c1 c2 show ?thesis by (simp add: scanChompingIndicator_def)
qed

lemma scanComment_consumes: "consumes s (snd (scanComment s))"
  using consumes_trans [OF advance_consumes scanWhile_consumes_input]
  by (simp add: scanComment_def split_beta)

lemma scanNewline_consumes: "consumes s (snd (scanNewline s))"
  using consumes_trans [OF advance_consumes nextLine_consumes]
  by (simp add: scanNewline_def)

lemma advance3_consumes: "consumes s (advance (advance (advance s)))"
  by (blast intro: consumes_trans advance_consumes)

lemma scanDocumentStart_consumes: "consumes s (snd (scanDocumentStart s))"
  by (simp add: scanDocumentStart_def advance3_consumes)

lemma scanDocumentEnd_consumes: "consumes s (snd (scanDocumentEnd s))"
  by (simp add: scanDocumentEnd_def advance3_consumes)

lemma scanSequenceItem_consumes: "consumes s (snd (scanSequenceItem s))"
  using consumes_trans [OF advance_consumes advance_consumes]
  by (simp add: scanSequenceItem_def)

lemma scanFlowEntry_consumes: "consumes s (snd (scanFlowEntry s))"
  by (simp add: scanFlowEntry_def advance_consumes)

lemma scanKey_consumes: "consumes s (snd (scanKey s))"
  by (simp add: scanKey_def advance_consumes)

lemma blockStart_consumes:
  "consumes s (skipNewline (skipToEndOfLine (snd (scanChompingIndicator (advance s)))))"
proof -
  let ?s1 = "snd (scanChompingIndicator (advance s))"
  have "consumes s ?s1"
    using advance_consumes scanChompingIndicator_consumes by (rule consumes_trans)
  then have "consumes s (skipToEndOfLine ?s1)"
    unfolding skipToEndOfLine_def using scanWhile_consumes_input by (rule consumes_trans)
  then show ?thesis using skipNewline_consumes by (rule consumes_trans)
qed

lemma scanLiteralBlock_consumes: "consumes s (snd (scanLiteralBlock s))"
  using consumes_trans [OF blockStart_consumes literalLoop_consumes]
  by (simp add: scanLiteralBlock_def Let_def split_beta)

lemma scanFoldedBlock_consumes: "consumes s (snd (scanFoldedBlock s))"
  using consumes_trans [OF blockStart_consumes foldedLoop_consumes]
  by (simp add: scanFoldedBlock_def Let_def split_beta)

lemma scanSingleQuotedString_consumes: "consumes s (snd (scanSingleQuotedString s))"
  using consumes_trans [OF advance_consumes singleQuotedLoop_consumes]
  by (simp add: scanSingleQuotedString_def split_beta)

lemma scanDoubleQuotedString_consumes: "consumes s (snd (scanDoubleQuotedString s))"
  using consumes_trans [OF advance_consumes doubleQuotedLoop_consumes]
  by (simp add: scanDoubleQuotedString_def split_beta)

lemma scanAnchor_consumes: "consumes s (snd (scanAnchor s))"
  using consumes_trans [OF advance_consumes scanWhile_consumes_input]
  by (simp add: scanAnchor_def split_beta)

lemma scanAlias_consumes: "consumes s (snd (scanAlias s))"
  using consumes_trans [OF advance_consumes scanWhile_consumes_input]
  by (simp add: scanAlias_def split_beta)

lemma scanTag_consumes: "consumes s (snd (scanTag s))"
proof -
  obtain ch s1 where p: "peek (advance s) = (ch, s1)" by (cases "peek (advance s)")
  have c1: "consumes s s1"
    using advance_consumes peek_consumes [OF p] by (rule consumes_trans)
  have c2: "consumes s (advance s1)" using c1 advance_consumes by (rule consumes_trans)
  let ?t = "if ch = CHR ''!'' then advance s1 else s1"
  have "consumes s ?t" using c1 c2 by simp
  then have "consumes s (snd (scanWhile (\<lambda>c. \<not> isSpaceByte c)
       (if ch = CHR ''!'' then ''!'' else []) ?t))"
    using scanWhile_consumes_input by (rule consumes_trans)
  with p show ?thesis by (simp add: scanTag_def split_beta)
qed

lemma scanScalar_consumes: "consumes s (snd (scanScalar s))"
  using scalarLoop_consumes [of s "[]"]
  by (simp add: scanScalar_def split_beta)

lemma skipWhitespace_consumes: "consumes s (skipWhitespace s)"
  by (simp add: skipWhitespace_def scanWhile_consumes_input)

subsection \<open>The invariant\<close>

text \<open>
  \<open>flowInv N s\<close>, for an input of \<open>N\<close> bytes: the flow depth is not negative and not
  above the number of bytes consumed, the position is within the buffer, and buffer
  and reader together hold the \<open>N\<close> bytes.
\<close>

definition flowInv :: "nat \<Rightarrow> Scanner \<Rightarrow> bool" where
  "flowInv N s =
     (0 \<le> inFlow s \<and> inFlow s \<le> int (position s) \<and> position s \<le> length (buffer s)
      \<and> length (buffer s) + length (reader s) = N)"

lemma wrap64_id: "- (2 ^ 63) \<le> x \<Longrightarrow> x < 2 ^ 63 \<Longrightarrow> wrap64 x = x"
  by (simp add: wrap64_def)

lemma consumes_flowInv: "flowInv N s \<Longrightarrow> consumes s s' \<Longrightarrow> flowInv N s'"
  by (auto simp: flowInv_def consumes_def)

lemma flowInv_bound: "flowInv N s \<Longrightarrow> position s \<le> N"
  by (simp add: flowInv_def)

lemma flowStart_flowInv:
  assumes "flowInv N s" and "position s < length (buffer s)" and "N < 2 ^ 63"
  shows "flowInv N ((advance s)\<lparr>inFlow := wrap64 (inFlow (advance s) + 1)\<rparr>)"
proof -
  from assms have b: "0 \<le> inFlow s" "inFlow s \<le> int (position s)" "int (position s) + 1 \<le> int N"
    by (auto simp: flowInv_def)
  from assms(3) have "int N < 2 ^ 63" by (metis of_nat_less_numeral_power_cancel_iff)
  with b have "wrap64 (inFlow s + 1) = inFlow s + 1" by (intro wrap64_id) linarith+
  with assms b show ?thesis by (simp add: flowInv_def advance_def)
qed

lemma flowEnd_flowInv:
  assumes "flowInv N s" and "N < 2 ^ 63"
  shows "flowInv N (let s1 = advance s
                    in if inFlow s1 > 0 then s1\<lparr>inFlow := wrap64 (inFlow s1 - 1)\<rparr> else s1)"
proof -
  have a: "flowInv N (advance s)" using assms(1) advance_consumes by (rule consumes_flowInv)
  show ?thesis
  proof (cases "inFlow (advance s) > 0")
    case False
    with a show ?thesis by (simp add: Let_def)
  next
    case True
    from assms(2) have n: "int N < 2 ^ 63" by (metis of_nat_less_numeral_power_cancel_iff)
    from a have "inFlow (advance s) \<le> int N" by (simp add: flowInv_def)
    with True n have "wrap64 (inFlow (advance s) - 1) = inFlow (advance s) - 1"
      by (intro wrap64_id) linarith+
    with True a show ?thesis by (simp add: Let_def flowInv_def)
  qed
qed

lemmas scan_consumes =
  scanComment_consumes scanNewline_consumes scanDocumentStart_consumes
  scanDocumentEnd_consumes scanSequenceItem_consumes scanFlowEntry_consumes scanKey_consumes
  scanLiteralBlock_consumes scanFoldedBlock_consumes scanSingleQuotedString_consumes
  scanDoubleQuotedString_consumes scanAnchor_consumes scanAlias_consumes scanTag_consumes
  scanScalar_consumes

lemma fills_buffered:
  "fills s s' \<Longrightarrow> position s < length (buffer s) \<Longrightarrow> position s' < length (buffer s')"
  using fills_fields [of s s'] by simp

lemma scanOther_consumes: "consumes s (snd (scanOther ch s))"
  by (simp add: scanOther_def scan_consumes)

lemma scanFlow_flowInv:
  assumes inv: "flowInv N s" and buf: "position s < length (buffer s)" and n: "N < 2 ^ 63"
  shows "flowInv N (snd (scanFlow ch s))"
proof -
  obtain b s1 where k: "atKey ch s = (b, s1)" by (cases "atKey ch s")
  have i1: "flowInv N s1" using inv atKey_consumes [OF k] by (rule consumes_flowInv)
  have op: "flowInv N ((advance s)\<lparr>inFlow := wrap64 (inFlow (advance s) + 1)\<rparr>)"
    using inv buf n by (rule flowStart_flowInv)
  have cl: "flowInv N (let t = advance s
      in if inFlow t > 0 then t\<lparr>inFlow := wrap64 (inFlow t - 1)\<rparr> else t)"
    using inv n by (rule flowEnd_flowInv)
  have entry: "flowInv N (snd (scanFlowEntry s))"
    using inv scanFlowEntry_consumes by (rule consumes_flowInv)
  have key: "flowInv N (snd (scanKey s1))"
    using i1 scanKey_consumes by (rule consumes_flowInv)
  have other: "flowInv N (snd (scanOther ch s1))"
    using i1 scanOther_consumes by (rule consumes_flowInv)
  from k op cl entry key other show ?thesis
    by (cases b)
       (simp_all add: scanFlow_def scanFlowSequenceStart_def scanFlowSequenceEnd_def
          scanFlowMappingStart_def scanFlowMappingEnd_def)
qed

lemma scanByte_flowInv:
  assumes inv: "flowInv N s" and buf: "position s < length (buffer s)" and n: "N < 2 ^ 63"
  shows "flowInv N (snd (scanByte ch s))"
proof -
  obtain b1 s1 where m1: "atMarker (CHR ''-'') ch s = (b1, s1)"
    by (cases "atMarker (CHR ''-'') ch s")
  obtain b2 s2 where m2: "atMarker (CHR ''.'') ch s1 = (b2, s2)"
    by (cases "atMarker (CHR ''.'') ch s1")
  obtain b3 s3 where m3: "atSequenceItem ch s2 = (b3, s3)" by (cases "atSequenceItem ch s2")
  have f1: "fills s s1" using atMarker_fills [of s "CHR ''-''" ch] m1 by simp
  have f2: "fills s1 s2" using atMarker_fills [of s1 "CHR ''.''" ch] m2 by simp
  have f3: "fills s2 s3" using atSequenceItem_fills [of s2 ch] m3 by simp
  have i1: "flowInv N s1" using inv fills_consumes [OF f1] by (rule consumes_flowInv)
  have i2: "flowInv N s2" using i1 fills_consumes [OF f2] by (rule consumes_flowInv)
  have i3: "flowInv N s3" using i2 fills_consumes [OF f3] by (rule consumes_flowInv)
  have b3': "position s3 < length (buffer s3)"
    using buf f1 f2 f3 by (blast intro: fills_buffered)
  have c: "flowInv N (snd (scanComment s))" "flowInv N (snd (scanNewline s))"
    "flowInv N (snd (scanDocumentStart s1))" "flowInv N (snd (scanDocumentEnd s2))"
    "flowInv N (snd (scanSequenceItem s3))"
    using inv i1 i2 i3 by (blast intro: consumes_flowInv scan_consumes)+
  have f: "flowInv N (snd (scanFlow ch s3))" using i3 b3' n by (rule scanFlow_flowInv)
  from m1 m2 m3 c f show ?thesis
    by (cases b1; cases b2; cases b3) (simp_all add: scanByte_def)
qed

lemma isEOF_buffered_after:
  "isEOF s = (False, s1) \<Longrightarrow> position s \<le> length (buffer s) \<Longrightarrow>
     position s1 < length (buffer s1)"
  by (auto simp: isEOF_def fillBuffer_def split: if_splits list.splits)

lemma scanNext_flowInv:
  assumes inv: "flowInv N s" and n: "N < 2 ^ 63"
  shows "flowInv N (snd (scanNext s))"
proof -
  obtain e s1 where e: "isEOF (skipWhitespace s) = (e, s1)" by (cases "isEOF (skipWhitespace s)")
  obtain ch s2 where p: "peek s1 = (ch, s2)" by (cases "peek s1")
  have i0: "flowInv N (skipWhitespace s)"
    using inv skipWhitespace_consumes by (rule consumes_flowInv)
  have i1: "flowInv N s1" using i0 isEOF_consumes [OF e] by (rule consumes_flowInv)
  have i2: "flowInv N s2" using i1 peek_consumes [OF p] by (rule consumes_flowInv)
  show ?thesis
  proof (cases e)
    case True
    with e i1 show ?thesis by (simp add: scanNext_def)
  next
    case False
    with e i0 have "position s1 < length (buffer s1)"
      by (intro isEOF_buffered_after [of "skipWhitespace s"]) (simp_all add: flowInv_def)
    then have "position s2 < length (buffer s2)"
      using fills_buffered [OF peek_fills [of s1]] p by simp
    with i2 n have "flowInv N (snd (scanByte ch s2))" by (intro scanByte_flowInv)
    with False e p show ?thesis by (simp add: scanNext_def)
  qed
qed

lemma Scan_flowInv: "flowInv N s \<Longrightarrow> N < 2 ^ 63 \<Longrightarrow> flowInv N (snd (Scan s))"
  by (simp add: Scan_def scanNext_flowInv) (simp add: flowInv_def)

lemma PushBack_flowInv: "flowInv N s \<Longrightarrow> flowInv N (PushBack t s)"
  by (simp add: PushBack_def flowInv_def)

lemma NewScanner_flowInv: "flowInv (length input) (NewScanner input)"
  by (simp add: NewScanner_def flowInv_def)

text \<open>Any sequence of calls of the scanner's two public operations.\<close>

datatype ScannerCall = CallScan | CallPushBack Token

fun runCalls :: "ScannerCall list \<Rightarrow> Scanner \<Rightarrow> Scanner" where
  "runCalls [] s = s"
| "runCalls (CallScan # cs) s = runCalls cs (snd (Scan s))"
| "runCalls (CallPushBack t # cs) s = runCalls cs (PushBack t s)"

lemma runCalls_flowInv: "flowInv N s \<Longrightarrow> N < 2 ^ 63 \<Longrightarrow> flowInv N (runCalls cs s)"
proof (induction cs s rule: runCalls.induct)
  case (1 s)
  then show ?case by simp
next
  case (2 cs s)
  then show ?case by (simp add: Scan_flowInv)
next
  case (3 t cs s)
  then show ?case by (simp add: PushBack_flowInv)
qed

subsection \<open>The kind of token each scan function returns\<close>

lemma detectScalarType_cases:
  "detectScalarType v \<in> {TokenNull, TokenBoolean, TokenNumber, TokenString}"
  by (simp add: detectScalarType_def Let_def)

lemma scan_Type:
  "Type (fst (scanComment s)) = TokenComment"
  "Type (fst (scanNewline s)) = TokenNewLine"
  "Type (fst (scanDocumentStart s)) = TokenDocumentStart"
  "Type (fst (scanDocumentEnd s)) = TokenDocumentEnd"
  "Type (fst (scanSequenceItem s)) = TokenSequenceItem"
  "Type (fst (scanFlowSequenceStart s)) = TokenFlowSequenceStart"
  "Type (fst (scanFlowSequenceEnd s)) = TokenFlowSequenceEnd"
  "Type (fst (scanFlowMappingStart s)) = TokenFlowMappingStart"
  "Type (fst (scanFlowMappingEnd s)) = TokenFlowMappingEnd"
  "Type (fst (scanFlowEntry s)) = TokenFlowEntry"
  "Type (fst (scanKey s)) = TokenKey"
  "Type (fst (scanLiteralBlock s)) = TokenLiteralBlock"
  "Type (fst (scanFoldedBlock s)) = TokenFoldedBlock"
  "Type (fst (scanSingleQuotedString s)) = TokenString"
  "Type (fst (scanDoubleQuotedString s)) = TokenString"
  "Type (fst (scanAnchor s)) = TokenAnchor"
  "Type (fst (scanAlias s)) = TokenAlias"
  "Type (fst (scanTag s)) = TokenTag"
  by (simp_all add: scanComment_def scanNewline_def scanDocumentStart_def scanDocumentEnd_def
      scanSequenceItem_def scanFlowSequenceStart_def scanFlowSequenceEnd_def
      scanFlowMappingStart_def scanFlowMappingEnd_def scanFlowEntry_def scanKey_def
      scanLiteralBlock_def scanFoldedBlock_def scanSingleQuotedString_def
      scanDoubleQuotedString_def scanAnchor_def scanAlias_def scanTag_def makeToken_def
      Let_def split_beta)

lemma scanScalar_Type:
  "Type (fst (scanScalar s)) \<in> {TokenNull, TokenBoolean, TokenNumber, TokenString}"
  using detectScalarType_cases [of "TrimSpace (fst (scalarLoop [] s))"]
  by (simp add: scanScalar_def makeToken_def split_beta)

lemma scanOther_Type:
  "Type (fst (scanOther ch s)) \<in>
     {TokenLiteralBlock, TokenFoldedBlock, TokenString, TokenAnchor, TokenAlias, TokenTag,
      TokenNull, TokenBoolean, TokenNumber}"
  using scanScalar_Type [of s] by (auto simp: scanOther_def scan_Type)

lemma scanFlow_Type:
  "Type (fst (scanFlow ch s)) \<in>
     {TokenFlowSequenceStart, TokenFlowSequenceEnd, TokenFlowMappingStart, TokenFlowMappingEnd,
      TokenFlowEntry, TokenKey,
      TokenLiteralBlock, TokenFoldedBlock, TokenString, TokenAnchor, TokenAlias, TokenTag,
      TokenNull, TokenBoolean, TokenNumber}"
proof -
  obtain b s1 where k: "atKey ch s = (b, s1)" by (cases "atKey ch s")
  from k scanOther_Type [of ch s1] show ?thesis
    by (cases b) (auto simp: scanFlow_def scan_Type)
qed

lemma scanFlow_FlowEntry:
  "Type (fst (scanFlow ch s)) = TokenFlowEntry \<Longrightarrow> ch = CHR '','' \<and> 0 < inFlow s"
proof -
  assume a: "Type (fst (scanFlow ch s)) = TokenFlowEntry"
  obtain b s1 where k: "atKey ch s = (b, s1)" by (cases "atKey ch s")
  from a k scanOther_Type [of ch s1] show ?thesis
    by (cases b) (auto simp: scanFlow_def scan_Type split: if_splits)
qed

lemma scanByte_FlowEntry:
  "Type (fst (scanByte ch s)) = TokenFlowEntry \<Longrightarrow> ch = CHR '','' \<and> 0 < inFlow s"
proof -
  assume a: "Type (fst (scanByte ch s)) = TokenFlowEntry"
  obtain b1 s1 where m1: "atMarker (CHR ''-'') ch s = (b1, s1)"
    by (cases "atMarker (CHR ''-'') ch s")
  obtain b2 s2 where m2: "atMarker (CHR ''.'') ch s1 = (b2, s2)"
    by (cases "atMarker (CHR ''.'') ch s1")
  obtain b3 s3 where m3: "atSequenceItem ch s2 = (b3, s3)" by (cases "atSequenceItem ch s2")
  have f1: "fills s s1" using atMarker_fills [of s "CHR ''-''" ch] m1 by simp
  have f2: "fills s1 s2" using atMarker_fills [of s1 "CHR ''.''" ch] m2 by simp
  have f3: "fills s2 s3" using atSequenceItem_fills [of s2 ch] m3 by simp
  have i: "inFlow s3 = inFlow s"
    using fills_fields [OF f1] fills_fields [OF f2] fills_fields [OF f3] by simp
  from a m1 m2 m3 have "Type (fst (scanFlow ch s3)) = TokenFlowEntry"
    by (cases b1; cases b2; cases b3) (simp_all add: scanByte_def scan_Type split: if_splits)
  from scanFlow_FlowEntry [OF this] i show ?thesis by simp
qed

lemma scanNext_FlowEntry: "Type (fst (scanNext s)) = TokenFlowEntry \<Longrightarrow> 0 < inFlow s"
proof -
  assume a: "Type (fst (scanNext s)) = TokenFlowEntry"
  obtain e s1 where e: "isEOF (skipWhitespace s) = (e, s1)" by (cases "isEOF (skipWhitespace s)")
  obtain ch s2 where p: "peek s1 = (ch, s2)" by (cases "peek s1")
  have "consumes s s2"
    using consumes_trans [OF consumes_trans [OF skipWhitespace_consumes isEOF_consumes [OF e]]
        peek_consumes [OF p]] .
  then have i: "inFlow s2 = inFlow s" by (simp add: consumes_def)
  from a e p have "\<not> e" by (cases e) (simp_all add: scanNext_def makeToken_def)
  with a e p have "Type (fst (scanByte ch s2)) = TokenFlowEntry" by (simp add: scanNext_def)
  from scanByte_FlowEntry [OF this] i show ?thesis by simp
qed

text \<open>
  Claim C10. On an input of fewer than \<open>2 ^ 63\<close> bytes (every Go slice is shorter),
  after any sequence of \<open>Scan\<close> and \<open>PushBack\<close> calls the flow depth \<open>inFlow\<close> is not
  negative, and \<open>scanNext\<close> turns a comma into a \<open>FlowEntry\<close> token only at a positive
  depth.
\<close>

theorem inFlow_never_negative:
  assumes "length input < 2 ^ 63"
  shows "0 \<le> inFlow (runCalls calls (NewScanner input))
    \<and> (Type (fst (scanNext (runCalls calls (NewScanner input)))) = TokenFlowEntry
         \<longrightarrow> 0 < inFlow (runCalls calls (NewScanner input)))"
proof -
  have "flowInv (length input) (runCalls calls (NewScanner input))"
    using NewScanner_flowInv assms by (rule runCalls_flowInv)
  then show ?thesis by (auto simp: flowInv_def dest: scanNext_FlowEntry)
qed

theorem inFlow_never_negative_witness:
  "length '']][,'' < (2::nat) ^ 63
   \<and> inFlow (runCalls [CallScan, CallScan] (NewScanner '']][,'')) = 0
   \<and> 0 \<le> inFlow (runCalls [CallScan, CallScan] (NewScanner '']][,''))
   \<and> Type (fst (scanNext (runCalls [CallScan, CallScan] (NewScanner '']][,''))))
        = TokenFlowSequenceStart
   \<and> Type (fst (scanNext (runCalls [CallScan, CallScan, CallScan]
        (NewScanner '']][,'')))) = TokenFlowEntry
   \<and> 0 < inFlow (runCalls [CallScan, CallScan, CallScan] (NewScanner '']][,''))"
proof -
  have l: "length '']][,'' < (2::nat) ^ 63" by simp
  have a: "inFlow (runCalls [CallScan, CallScan] (NewScanner '']][,'')) = 0" by code_simp
  have b: "Type (fst (scanNext (runCalls [CallScan, CallScan] (NewScanner '']][,''))))
        = TokenFlowSequenceStart" by code_simp
  have c: "Type (fst (scanNext (runCalls [CallScan, CallScan, CallScan]
        (NewScanner '']][,'')))) = TokenFlowEntry" by code_simp
  from inFlow_never_negative [OF l, of "[CallScan, CallScan]"]
  have d: "0 \<le> inFlow (runCalls [CallScan, CallScan] (NewScanner '']][,''))"
    by blast
  from inFlow_never_negative [OF l, of "[CallScan, CallScan, CallScan]"] c
  have e: "0 < inFlow (runCalls [CallScan, CallScan, CallScan] (NewScanner '']][,''))"
    by blast
  from l a b c d e show ?thesis by blast
qed

end
